theory Spec2Isabelle
  imports Main "HOL-Library.Word" "HOL-Library.Signed_Division" "HOL-Library.Multiset"
    "HOL-Library.Sublist"
begin

section \<open>The L1 cache latency prober (hw-1/main.cpp)\<close>

text \<open>
  The program keeps one global backing buffer \<^verbatim>\<open>uint32_t *array\<close> of
  \<^verbatim>\<open>arrayLen\<close> elements, a global Mersenne twister \<^verbatim>\<open>gen\<close>, and measures
  pointer chases with \<^verbatim>\<open>steady_clock\<close>. All counters, strides and indices are
  \<^verbatim>\<open>uint32_t\<close>: they are 32-bit words here, so that \<open>+\<close>, \<open>-\<close> and \<open>*\<close> wrap
  around exactly as in the source.
\<close>

type_synonym u32 = "32 word"

subsection \<open>Program state\<close>

text \<open>
  One access to the backing buffer: the index that is written or read. An index that is
  not below \<^verbatim>\<open>arrayLen\<close> is an access outside the allocation, which C++ leaves
  undefined; the log of accesses makes every such index visible.
\<close>

datatype access = Write u32 | Read u32

fun addr :: "access \<Rightarrow> u32" where
  "addr (Write i) = i"
| "addr (Read i) = i"

fun is_Write :: "access \<Rightarrow> bool" where
  "is_Write (Write i) = True"
| "is_Write (Read i) = False"

text \<open>
  The state of the process. \<open>array\<close> and \<open>gen\<close> are the globals of the source,
  \<open>arrayLen\<close> and \<open>allocated\<close> describe the allocation made by \<^verbatim>\<open>main\<close>,
  \<open>cerr\<close> is the text written to the error stream, and \<open>clock\<close> counts the readings of
  \<^verbatim>\<open>steady_clock::now()\<close> taken so far (the k-th reading returns \<open>clk k\<close> for a
  clock \<open>clk\<close> given from outside). The remaining fields are logs of what the program did,
  in program order; no function reads them:
  \<open>accesses\<close> the buffer accesses, \<open>draws\<close> the permutations returned by
  \<^verbatim>\<open>std::shuffle\<close>, \<open>calls\<close> the (stride, elems) arguments of the invocations of
  \<^verbatim>\<open>timeOfArrayRead\<close>.
\<close>

record 'g state =
  array :: "u32 \<Rightarrow> u32"
  arrayLen :: u32
  allocated :: bool
  gen :: 'g
  clock :: nat
  cerr :: string
  accesses :: "access list"
  draws :: "u32 list list"
  calls :: "(u32 \<times> u32) list"

definition array_write :: "u32 \<Rightarrow> u32 \<Rightarrow> 'g state \<Rightarrow> 'g state" where
  "array_write i v st = st\<lparr>array := (array st)(i := v), accesses := accesses st @ [Write i]\<rparr>"

definition array_read :: "u32 \<Rightarrow> 'g state \<Rightarrow> u32 \<times> 'g state" where
  "array_read i st = (array st i, st\<lparr>accesses := accesses st @ [Read i]\<rparr>)"

subsection \<open>Pattern generators\<close>

text \<open>
  \<^verbatim>\<open>fillDirectIndexes\<close> (lines 49-60). The loop variable \<open>i\<close> advances by
  \<open>stride\<close> with wrap-around and is compared with the wrapped product
  \<open>stride * (elems - 1)\<close>; no counter bounds the loop, so it is a partial function and
  not returning is the value \<open>None\<close>.
\<close>

partial_function (option) fillDirect_loop ::
  "u32 \<Rightarrow> u32 \<Rightarrow> u32 \<Rightarrow> 'g state \<Rightarrow> 'g state option" where
  "fillDirect_loop stride elems i st =
     (if i \<le> stride * (elems - 1) then
        (if i = stride * (elems - 1) then Some (array_write i 0 st)
         else fillDirect_loop stride elems (i + stride) (array_write i (i + stride) st))
      else Some st)"

definition fillDirectIndexes :: "u32 \<Rightarrow> u32 \<Rightarrow> 'g state \<Rightarrow> 'g state option" where
  "fillDirectIndexes stride elems st = fillDirect_loop stride elems 0 st"

text \<open>\<^verbatim>\<open>fillReverseIndexes\<close> (lines 62-76); the counter \<open>cnt\<close> bounds the loop.\<close>

function fillReverse_loop ::
  "u32 \<Rightarrow> u32 \<Rightarrow> u32 \<Rightarrow> u32 \<Rightarrow> 'g state \<Rightarrow> 'g state" where
  "fillReverse_loop stride elems i cnt st =
     (if cnt < elems then
        (if i = 0 then array_write i (stride * (elems - 1)) st
         else fillReverse_loop stride elems (i - stride) (cnt + 1) (array_write i (i - stride) st))
      else st)"
  by pat_completeness auto

lemma unat_Suc_less: "(i::u32) < n \<Longrightarrow> unat (i + 1) = Suc (unat i)"
proof -
  assume "i < n"
  then have "unat i < unat n" by (simp add: word_less_nat_alt)
  moreover have "unat n < 2 ^ 32" using unsigned_less [of n] by simp
  ultimately have "unat i + unat (1::u32) < 2 ^ LENGTH(32)" by simp
  then have "unat (i + 1) = unat i + unat (1::u32)" by (simp only: unat_add_lem [THEN iffD1])
  then show ?thesis by simp
qed

lemma counter_measure: "(i::u32) < n \<Longrightarrow> unat n - unat (i + 1) < unat n - unat i"
  by (simp add: unat_Suc_less word_less_nat_alt)

termination fillReverse_loop
  by (relation "measure (\<lambda>(stride, elems, i, cnt, st). unat elems - unat cnt)")
     (auto simp: counter_measure)

declare fillReverse_loop.simps [simp del]

definition fillReverseIndexes :: "u32 \<Rightarrow> u32 \<Rightarrow> 'g state \<Rightarrow> 'g state" where
  "fillReverseIndexes stride elems st = fillReverse_loop stride elems (stride * (elems - 1)) 0 st"

text \<open>
  \<^verbatim>\<open>fillShuffledIndexes\<close> (lines 78-95). \<^verbatim>\<open>std::shuffle\<close> and the engine
  \<^verbatim>\<open>std::mt19937\<close> belong to the C++ library, whose shuffle algorithm is
  implementation-defined; the model takes the shuffle as a parameter: it maps the engine
  state and the vector to the permuted vector and the next engine state. What the library
  promises is that the result is a rearrangement of the input.
\<close>

type_synonym 'g shuffle = "'g \<Rightarrow> u32 list \<Rightarrow> u32 list \<times> 'g"

definition permutes :: "'g shuffle \<Rightarrow> bool" where
  "permutes shuffle \<longleftrightarrow> (\<forall>g xs. mset (fst (shuffle g xs)) = mset xs)"

text \<open>Lines 80-83: a vector of \<open>elems\<close> zeros, then \<open>indexes[i] = i\<close>.\<close>

function iota_loop :: "u32 \<Rightarrow> u32 \<Rightarrow> u32 list \<Rightarrow> u32 list" where
  "iota_loop elems i indexes =
     (if i < elems then iota_loop elems (i + 1) (indexes[unat i := i]) else indexes)"
  by pat_completeness auto
termination
  by (relation "measure (\<lambda>(elems, i, indexes). unat elems - unat i)")
     (auto simp: counter_measure)

declare iota_loop.simps [simp del]

text \<open>Lines 88-94: slot \<open>indexes[i]\<close> points to slot \<open>indexes[i + 1]\<close>, the last to the first.\<close>

function fillShuffled_loop ::
  "u32 \<Rightarrow> u32 \<Rightarrow> u32 list \<Rightarrow> u32 \<Rightarrow> 'g state \<Rightarrow> 'g state" where
  "fillShuffled_loop stride elems indexes i st =
     (if i < elems then
        fillShuffled_loop stride elems indexes (i + 1)
          (if i = elems - 1
           then array_write (indexes ! unat i * stride) (indexes ! 0 * stride) st
           else array_write (indexes ! unat i * stride) (indexes ! unat (i + 1) * stride) st)
      else st)"
  by pat_completeness auto
termination
  by (relation "measure (\<lambda>(stride, elems, indexes, i, st). unat elems - unat i)")
     (auto simp: counter_measure)

declare fillShuffled_loop.simps [simp del]

text \<open>The parameter \<open>seed\<close> (default 42) is declared by the source and used nowhere in it.\<close>

definition fillShuffledIndexes ::
  "'g shuffle \<Rightarrow> u32 \<Rightarrow> u32 \<Rightarrow> u32 \<Rightarrow> 'g state \<Rightarrow> 'g state" where
  "fillShuffledIndexes shuffle stride elems seed st =
     (let indexes = iota_loop elems 0 (replicate (unat elems) 0);
          (shuffled, g) = shuffle (gen st) indexes
      in fillShuffled_loop stride elems shuffled 0
           (st\<lparr>gen := g, draws := draws st @ [shuffled]\<rparr>))"

subsection \<open>Timed reader\<close>

text \<open>
  The chase of lines 108-111 and 115-118: \<open>idx = array[idx]\<close>, \<open>n\<close> times. The source
  also copies \<open>idx\<close> into the volatile local \<open>sink\<close>, which nothing reads.
\<close>

function read_loop :: "u32 \<Rightarrow> u32 \<Rightarrow> u32 \<Rightarrow> 'g state \<Rightarrow> u32 \<times> 'g state" where
  "read_loop n i idx st =
     (if i < n then (case array_read idx st of (v, st') \<Rightarrow> read_loop n (i + 1) v st')
      else (idx, st))"
  by pat_completeness auto
termination
  by (relation "measure (\<lambda>(n, i, idx, st). unat n - unat i)")
     (auto simp: counter_measure)

declare read_loop.simps [simp del]

text \<open>\<^verbatim>\<open>steady_clock::now()\<close>: the next reading of the clock, in nanoseconds.\<close>

definition now :: "(nat \<Rightarrow> int) \<Rightarrow> 'g state \<Rightarrow> int \<times> 'g state" where
  "now clk st = (clk (clock st), st\<lparr>clock := Suc (clock st)\<rparr>)"

datatype error = DivisionByZero | VectorOutOfRange

text \<open>
  \<^verbatim>\<open>timeOfArrayRead\<close> (lines 97-126). Durations are 64-bit counts of nanoseconds in
  the source and integers here. The loop over the batches is lines 103-121; both chases
  declare their own \<open>idx = 0\<close>.
\<close>

function timeOfArrayRead_loop ::
  "'g shuffle \<Rightarrow> (nat \<Rightarrow> int) \<Rightarrow> u32 \<Rightarrow> u32 \<Rightarrow> u32 \<Rightarrow> u32 \<Rightarrow> u32 \<Rightarrow> u32 \<Rightarrow> int \<Rightarrow> 'g state
     \<Rightarrow> int \<times> 'g state" where
  "timeOfArrayRead_loop shuffle clk stride elems iterationsPerBatch warnupReadsCount
       batchesCount batch diff st =
     (if batch < batchesCount then
        (let st1 = fillShuffledIndexes shuffle stride elems 42 st;
             (w, st2) = read_loop warnupReadsCount 0 0 st1;
             (start, st3) = now clk st2;
             (t, st4) = read_loop iterationsPerBatch 0 0 st3;
             (stop, st5) = now clk st4
         in timeOfArrayRead_loop shuffle clk stride elems iterationsPerBatch warnupReadsCount
              batchesCount (batch + 1) (diff + (stop - start)) st5)
      else (diff, st))"
  by pat_completeness auto
termination
  by (relation "measure (\<lambda>(shuffle, clk, stride, elems, n, w, batchesCount, batch, diff, st).
        unat batchesCount - unat batch)")
     (auto simp: counter_measure)

declare timeOfArrayRead_loop.simps [simp del]

text \<open>
  Line 123, \<open>diff /= batchesCount\<close>, is a division of 64-bit integers: it truncates
  towards zero. With \<open>batchesCount = 0\<close> it is a division by zero, for which C++ defines
  no result: the model then gives the error \<open>DivisionByZero\<close> in place of a duration.
\<close>

definition timeOfArrayRead ::
  "'g shuffle \<Rightarrow> (nat \<Rightarrow> int) \<Rightarrow> u32 \<Rightarrow> u32 \<Rightarrow> u32 \<Rightarrow> u32 \<Rightarrow> u32 \<Rightarrow> 'g state
     \<Rightarrow> error + int \<times> 'g state" where
  "timeOfArrayRead shuffle clk stride elems readsCount warnupReadsCount batchesCount st =
     (let iterationsPerBatch = readsCount;
          (diff, st') = timeOfArrayRead_loop shuffle clk stride elems iterationsPerBatch
             warnupReadsCount batchesCount 0 0 (st\<lparr>calls := calls st @ [(stride, elems)]\<rparr>)
      in if batchesCount = 0 then Inl DivisionByZero
         else Inr (diff sdiv uint batchesCount, st'))"

subsection \<open>Sweep driver\<close>

definition ARRAY_READS_COUNT :: u32 where "ARRAY_READS_COUNT = 1000000"
definition WARNUP_READS_COUNT :: u32 where "WARNUP_READS_COUNT = 5000"
definition BATCHES_COUNT :: u32 where "BATCHES_COUNT = 5"

text \<open>
  \<^verbatim>\<open>v[r][c] = x\<close> on a vector of vectors. \<^verbatim>\<open>operator[]\<close> outside the size
  of a vector is undefined in C++; it is the error \<open>VectorOutOfRange\<close> here.
\<close>

definition vector_set :: "'a list list \<Rightarrow> nat \<Rightarrow> nat \<Rightarrow> 'a \<Rightarrow> error + 'a list list" where
  "vector_set v r c x =
     (if r < length v \<and> c < length (v ! r) then Inr (v[r := (v ! r)[c := x]])
      else Inl VectorOutOfRange)"

text \<open>
  The inner loop of \<^verbatim>\<open>capacityAndAssociativity\<close> (lines 150-169), over the
  working-set sizes at one stride. \<open>times_v\<close> and \<open>jumps_v\<close> are the vectors
  \<^verbatim>\<open>times\<close> and \<^verbatim>\<open>jumps\<close>; \<open>isJump\<close> is the constant \<open>false\<close> of
  line 156. The source also copies \<open>currentTime\<close> into \<open>prevTime\<close>, which nothing
  reads.
\<close>

function elems_loop ::
  "'g shuffle \<Rightarrow> (nat \<Rightarrow> int) \<Rightarrow> u32 \<Rightarrow> u32 \<Rightarrow> u32 \<Rightarrow> u32 \<Rightarrow> int list list \<Rightarrow> bool list list
     \<Rightarrow> 'g state \<Rightarrow> error + int list list \<times> bool list list \<times> 'g state" where
  "elems_loop shuffle clk maxAssoc stride stridePow elems times_v jumps_v st =
     (if elems < maxAssoc then
        (case timeOfArrayRead shuffle clk stride elems ARRAY_READS_COUNT WARNUP_READS_COUNT
                BATCHES_COUNT st of
           Inl e \<Rightarrow> Inl e
         | Inr (currentTime, st') \<Rightarrow>
             (case vector_set times_v (unat elems) (unat stridePow) currentTime of
                Inl e \<Rightarrow> Inl e
              | Inr times_v' \<Rightarrow>
                  (case (if elems > 1 then
                           (let isJump = False
                            in if isJump
                               then vector_set jumps_v (unat elems) (unat stridePow) True
                               else Inr jumps_v)
                         else Inr jumps_v) of
                     Inl e \<Rightarrow> Inl e
                   | Inr jumps_v' \<Rightarrow>
                       elems_loop shuffle clk maxAssoc stride stridePow (elems + 1)
                         times_v' jumps_v' st')))
      else Inr (times_v, jumps_v, st))"
  by pat_completeness auto
termination
  by (relation "measure (\<lambda>(shuffle, clk, maxAssoc, stride, stridePow, elems, times_v, jumps_v, st).
        unat maxAssoc - unat elems)")
     (auto simp: counter_measure)

declare elems_loop.simps [simp del]

text \<open>
  The outer loop (lines 147-174). \<open>stride * sizeof(uint32_t)\<close> is computed in the 64-bit
  \<^verbatim>\<open>size_t\<close>, so the product does not wrap; \<open>stride *= 2\<close> and \<open>stridePow++\<close> are
  32-bit. Nothing bounds the loop when \<open>stride\<close> is 0: it is a partial function.
\<close>

partial_function (option) stride_loop ::
  "'g shuffle \<Rightarrow> (nat \<Rightarrow> int) \<Rightarrow> u32 \<Rightarrow> u32 \<Rightarrow> u32 \<Rightarrow> u32 \<Rightarrow> int list list \<Rightarrow> bool list list
     \<Rightarrow> 'g state \<Rightarrow> (error + u32 \<times> int list list \<times> bool list list \<times> 'g state) option" where
  "stride_loop shuffle clk maxAssoc maxStride stride stridePow times_v jumps_v st =
     (if unat stride * 4 \<le> unat maxStride then
        (case elems_loop shuffle clk maxAssoc stride stridePow 1 times_v jumps_v st of
           Inl e \<Rightarrow> Some (Inl e)
         | Inr (times_v', jumps_v', st') \<Rightarrow>
             stride_loop shuffle clk maxAssoc maxStride (stride * 2) (stridePow + 1)
               times_v' jumps_v' st')
      else Some (Inr (stridePow, times_v, jumps_v, st)))"

text \<open>
  \<^verbatim>\<open>capacityAndAssociativity\<close>, lines 134-174: the measurement, returning what the
  printing stage of lines 176-194 consumes (\<open>stridePow\<close> and the two grids).
\<close>

definition capacityAndAssociativity ::
  "'g shuffle \<Rightarrow> (nat \<Rightarrow> int) \<Rightarrow> u32 \<Rightarrow> u32 \<Rightarrow> u32 \<Rightarrow> u32 \<Rightarrow> 'g state
     \<Rightarrow> (error + u32 \<times> int list list \<times> bool list list \<times> 'g state) option" where
  "capacityAndAssociativity shuffle clk maxMemory maxAssoc maxStride minStride st =
     (let stride = minStride div 4;
          stridePow = 0;
          times_v = replicate (unat maxAssoc) (replicate (unat maxStride) 0);
          jumps_v = replicate (unat maxAssoc) (replicate (unat maxStride) False)
      in stride_loop shuffle clk maxAssoc maxStride stride stridePow times_v jumps_v st)"

subsection \<open>Text output\<close>

text \<open>\<^verbatim>\<open>std::to_string\<close> and \<^verbatim>\<open>operator<<\<close> on integers: the decimal digits.\<close>

fun string_of_nat :: "nat \<Rightarrow> string" where
  "string_of_nat n =
     (if n < 10 then [char_of (48 + n)]
      else string_of_nat (n div 10) @ [char_of (48 + n mod 10)])"

declare string_of_nat.simps [simp del]

definition to_string :: "int \<Rightarrow> string" where
  "to_string i = (if i < 0 then CHR ''-'' # string_of_nat (nat (- i)) else string_of_nat (nat i))"

text \<open>
  One cell of the printed table (lines 188-190): the time divided by \<open>timeFactor\<close>,
  after the jump marker when the cell is flagged.
\<close>

definition timeFactor :: int where "timeFactor = 10000"

definition timeWithJump :: "int list list \<Rightarrow> bool list list \<Rightarrow> nat \<Rightarrow> nat \<Rightarrow> string" where
  "timeWithJump times_v jumps_v s p =
     (let time = (times_v ! s ! p) sdiv timeFactor
      in (if jumps_v ! s ! p then ''[+]'' else []) @ to_string time)"

subsection \<open>Process entry\<close>

text \<open>
  \<^verbatim>\<open>rassert\<close> (lines 26-31): \<^verbatim>\<open>std::exit(1)\<close> ends the process; the left
  result is the exit status with the state the process ends in.
\<close>

definition rassert :: "bool \<Rightarrow> u32 \<Rightarrow> 'g state \<Rightarrow> nat \<times> 'g state + 'g state" where
  "rassert expr ident st =
     (if \<not> expr then
        Inl (1, st\<lparr>cerr := cerr st @ ''Assertion failed: '' @ to_string (uint ident) @ [CHR 0x0A]\<rparr>)
      else Inr st)"

text \<open>
  \<^verbatim>\<open>main\<close> (lines 197-215) with its four local constants as parameters. The result
  is the exit status with the final state, or the error that ended the process, or
  \<open>None\<close> when the sweep does not return. \<^verbatim>\<open>aligned_alloc\<close> leaves the contents
  of the buffer as they are; the text written to the standard output is not modelled.
\<close>

definition main_with ::
  "'g shuffle \<Rightarrow> (nat \<Rightarrow> int) \<Rightarrow> u32 \<Rightarrow> u32 \<Rightarrow> u32 \<Rightarrow> u32 \<Rightarrow> 'g state
     \<Rightarrow> (error + nat \<times> 'g state) option" where
  "main_with shuffle clk maxMemory maxAssoc maxStride minStride st =
     (case rassert (maxAssoc * maxStride \<le> maxMemory) 1 st of
        Inl exit \<Rightarrow> Some (Inr exit)
      | Inr st1 \<Rightarrow>
          (let st2 = st1\<lparr>allocated := True, arrayLen := maxMemory div 4\<rparr>
           in case capacityAndAssociativity shuffle clk maxMemory (maxAssoc + 1) maxStride
                     minStride st2 of
                None \<Rightarrow> None
              | Some (Inl e) \<Rightarrow> Some (Inl e)
              | Some (Inr (stridePow, times_v, jumps_v, st3)) \<Rightarrow>
                  Some (Inr (0, st3\<lparr>allocated := False\<rparr>))))"

definition main :: "'g shuffle \<Rightarrow> (nat \<Rightarrow> int) \<Rightarrow> 'g state \<Rightarrow> (error + nat \<times> 'g state) option" where
  "main shuffle clk st = main_with shuffle clk (2 ^ 30) 32 (2 ^ 25) 16 st"

text \<open>The process starts with no allocation, nothing written and empty logs.\<close>

definition initial :: "'g \<Rightarrow> (u32 \<Rightarrow> u32) \<Rightarrow> 'g state" where
  "initial g a = \<lparr>array = a, arrayLen = 0, allocated = False, gen = g, clock = 0, cerr = [],
     accesses = [], draws = [], calls = []\<rparr>"

text \<open>
  Line 19, \<^verbatim>\<open>std::mt19937 gen(239)\<close>, constructs the global engine from the seed 239
  before \<^verbatim>\<open>main\<close> runs. The constructor belongs to the C++ library and is the
  parameter \<open>mt\<close>; the contents \<open>a\<close> of the memory that \<^verbatim>\<open>aligned_alloc\<close> will
  hand out are arbitrary.
\<close>

definition startup :: "(u32 \<Rightarrow> 'g) \<Rightarrow> (u32 \<Rightarrow> u32) \<Rightarrow> 'g state" where
  "startup mt a = initial (mt 239) a"

section \<open>Vocabulary of the properties\<close>

text \<open>
  The positions of a pattern: \<open>footprint stride elems\<close> lists \<open>0\<close>, \<open>stride\<close>, ...,
  \<open>(elems - 1) * stride\<close>, each computed in 32-bit arithmetic as the generators compute
  them.
\<close>

definition iota :: "nat \<Rightarrow> u32 list" where
  "iota n = map of_nat [0..<n]"

definition footprint :: "u32 \<Rightarrow> u32 \<Rightarrow> u32 list" where
  "footprint stride elems = map (\<lambda>x. x * stride) (iota (unat elems))"

text \<open>A sequence of (index, value) writes, performed in order, and its effect on the buffer.\<close>

fun apply_writes :: "(u32 \<times> u32) list \<Rightarrow> 'g state \<Rightarrow> 'g state" where
  "apply_writes [] st = st"
| "apply_writes (w # ws) st = apply_writes ws (array_write (fst w) (snd w) st)"

definition writes_to :: "(u32 \<times> u32) list \<Rightarrow> (u32 \<Rightarrow> u32) \<Rightarrow> u32 \<Rightarrow> u32" where
  "writes_to ws a = foldl (\<lambda>a w. a(fst w := snd w)) a ws"

text \<open>The writes that link the positions \<open>ps\<close> into a ring: each to its successor, the last to the first.\<close>

definition cycle_writes :: "u32 list \<Rightarrow> (u32 \<times> u32) list" where
  "cycle_writes ps = map (\<lambda>k. (ps ! k, ps ! (Suc k mod length ps))) [0..<length ps]"

text \<open>The write of iteration \<open>k\<close> of lines 88-94, and the positions in shuffled order.\<close>

definition link :: "u32 \<Rightarrow> nat \<Rightarrow> u32 list \<Rightarrow> nat \<Rightarrow> u32 \<times> u32" where
  "link stride n indexes =
     (\<lambda>k. (indexes ! k * stride, indexes ! (if Suc k = n then 0 else Suc k) * stride))"

definition shuffled_positions :: "'g shuffle \<Rightarrow> u32 \<Rightarrow> u32 \<Rightarrow> 'g state \<Rightarrow> u32 list" where
  "shuffled_positions shuffle stride elems st =
     map (\<lambda>x. x * stride) (fst (shuffle (gen st) (iota (unat elems))))"

text \<open>The chase counted by a natural number.\<close>

fun chase :: "nat \<Rightarrow> u32 \<Rightarrow> 'g state \<Rightarrow> u32 \<times> 'g state" where
  "chase 0 idx st = (idx, st)"
| "chase (Suc k) idx st = (case array_read idx st of (v, st') \<Rightarrow> chase k v st')"

text \<open>
  Concrete inputs for the instances below: a shuffle whose engine is a counter and that
  rotates the vector by it, and a clock that advances 100 ns per reading.
\<close>

definition rotating :: "nat shuffle" where
  "rotating g xs = (rotate g xs, Suc g)"

definition ticking :: "nat \<Rightarrow> int" where
  "ticking k = 100 * int k"

text \<open>
  The accesses made between two states, and the frame property of a generator. With \<open>st\<close>
  the state before the generation and \<open>st'\<close> the state after it, \<open>confined\<close> says:
  every access of the generation is a write to a position of the footprint; the cell
  \<open>p\<close>, when it is outside the footprint, holds what it held before; and the chase of
  \<open>m\<close> steps from position 0 that follows makes only reads, all of them at positions of
  the footprint.
\<close>

definition new_accesses :: "'g state \<Rightarrow> 'g state \<Rightarrow> access list" where
  "new_accesses st st' = drop (length (accesses st)) (accesses st')"

definition confined :: "u32 \<Rightarrow> u32 \<Rightarrow> 'g state \<Rightarrow> 'g state \<Rightarrow> u32 \<Rightarrow> u32 \<Rightarrow> bool" where
  "confined stride elems st st' p m \<longleftrightarrow>
     accesses st' = accesses st @ new_accesses st st'
     \<and> list_all (\<lambda>a. is_Write a \<and> addr a \<in> set (footprint stride elems)) (new_accesses st st')
     \<and> (p \<notin> set (footprint stride elems) \<longrightarrow> array st' p = array st p)
     \<and> (case read_loop m 0 0 st' of (idx, st'') \<Rightarrow>
          accesses st'' = accesses st' @ new_accesses st' st''
          \<and> list_all (\<lambda>a. \<not> is_Write a \<and> addr a \<in> set (footprint stride elems))
               (new_accesses st' st''))"

text \<open>The reads of a chase of \<open>k\<close> steps in the buffer \<open>a\<close>, begun at position \<open>start\<close>.\<close>

definition chase_reads :: "(u32 \<Rightarrow> u32) \<Rightarrow> u32 \<Rightarrow> nat \<Rightarrow> access list" where
  "chase_reads a start k = map (\<lambda>j. Read ((a ^^ j) start)) [0..<k]"

text \<open>
  The state of the shuffle engine after \<open>k\<close> shuffles of a vector of \<open>elems\<close> slots,
  and the \<open>b\<close>-th timed interval of a call that finds the clock at its \<open>c\<close>-th reading:
  each batch takes two readings.
\<close>

definition engine :: "'g shuffle \<Rightarrow> u32 \<Rightarrow> nat \<Rightarrow> 'g \<Rightarrow> 'g" where
  "engine shuffle elems k g = ((\<lambda>g. snd (shuffle g (iota (unat elems)))) ^^ k) g"

definition interval :: "(nat \<Rightarrow> int) \<Rightarrow> nat \<Rightarrow> nat \<Rightarrow> int" where
  "interval clk c b = clk (c + 2 * b + 1) - clk (c + 2 * b)"

text \<open>
  What one batch of \<open>timeOfArrayRead\<close> (lines 104-120) does to the state: the pattern is
  generated anew by \<open>fillShuffledIndexes\<close>, the warm-up chase and the timed chase read
  from position 0, and the clock is read twice.
\<close>

definition one_batch :: "'g shuffle \<Rightarrow> u32 \<Rightarrow> u32 \<Rightarrow> u32 \<Rightarrow> u32 \<Rightarrow> 'g state \<Rightarrow> 'g state" where
  "one_batch shuffle stride elems readsCount warnupReadsCount st =
     (let st1 = fillShuffledIndexes shuffle stride elems 42 st
      in st1\<lparr>accesses := accesses st1
                 @ chase_reads (array st1) 0 (unat warnupReadsCount)
                 @ chase_reads (array st1) 0 (unat readsCount),
               clock := clock st + 2\<rparr>)"

text \<open>
  The sweep. \<open>batch_mean clk c\<close> is the duration that \<open>timeOfArrayRead\<close> returns when
  called with the constants of the sweep while the clock stands at its \<open>c\<close>-th reading,
  and \<open>measured\<close> is the state that this call leaves. A clock is \<open>steady\<close> when its
  readings never decrease.
\<close>

definition batch_mean :: "(nat \<Rightarrow> int) \<Rightarrow> nat \<Rightarrow> int" where
  "batch_mean clk c = (\<Sum>b<unat BATCHES_COUNT. interval clk c b) sdiv uint BATCHES_COUNT"

definition measured :: "'g shuffle \<Rightarrow> (nat \<Rightarrow> int) \<Rightarrow> u32 \<times> u32 \<Rightarrow> 'g state \<Rightarrow> 'g state" where
  "measured shuffle clk cell st =
     (case timeOfArrayRead shuffle clk (fst cell) (snd cell) ARRAY_READS_COUNT
             WARNUP_READS_COUNT BATCHES_COUNT st of
        Inl e \<Rightarrow> st
      | Inr (d, st') \<Rightarrow> st')"

definition steady :: "(nat \<Rightarrow> int) \<Rightarrow> bool" where
  "steady clk \<longleftrightarrow> (\<forall>k. clk k \<le> clk (Suc k))"

text \<open>
  \<open>doublings s M\<close> counts the strides \<open>s, 2 s, 4 s, \<dots>\<close> (in elements) whose size in
  bytes is at most \<open>M\<close>, and \<open>cells s A k\<close> lists the cells (stride, elems) of \<open>k\<close>
  such strides with the working-set sizes \<open>1, \<dots>, A - 1\<close>, stride by stride.
\<close>

function doublings :: "nat \<Rightarrow> nat \<Rightarrow> nat" where
  "doublings s M = (if 0 < s \<and> 4 * s \<le> M then Suc (doublings (2 * s) M) else 0)"
  by pat_completeness auto
termination
  by (relation "measure (\<lambda>(s, M). Suc M - s)") auto

declare doublings.simps [simp del]

definition cells :: "u32 \<Rightarrow> nat \<Rightarrow> nat \<Rightarrow> (u32 \<times> u32) list" where
  "cells s A k = concat (map (\<lambda>j. map (\<lambda>e. (s * 2 ^ j, of_nat e)) [1..<A]) [0..<k])"

text \<open>A vector of \<open>A\<close> vectors of size \<open>M\<close>.\<close>

definition grid_ok :: "nat \<Rightarrow> nat \<Rightarrow> 'a list list \<Rightarrow> bool" where
  "grid_ok A M g \<longleftrightarrow> length g = A \<and> (\<forall>r<A. length (g ! r) = M)"

text \<open>
  The cells of the buffer written so far, in program order; and two states that hold the
  same generated patterns: the same engine state, the same permutations drawn by
  \<^verbatim>\<open>std::shuffle\<close> and the same (stride, elems) calls of \<open>timeOfArrayRead\<close>, in
  the same order, the same cells written in the same order, and the same value in every
  cell that was written.
\<close>

definition written :: "'g state \<Rightarrow> u32 list" where
  "written st = map addr (filter is_Write (accesses st))"

definition same_patterns :: "'g state \<Rightarrow> 'g state \<Rightarrow> bool" where
  "same_patterns st st' \<longleftrightarrow>
     gen st = gen st' \<and> draws st = draws st' \<and> calls st = calls st'
     \<and> written st = written st'
     \<and> (\<forall>p\<in>set (written st). array st p = array st' p)"

section \<open>Properties\<close>

subsection \<open>Sequences of writes\<close>

lemma apply_writes_append:
  "apply_writes (xs @ ys) st = apply_writes ys (apply_writes xs st)"
  by (induction xs arbitrary: st) auto

lemma apply_writes_eq:
  "apply_writes ws st =
     st\<lparr>array := writes_to ws (array st), accesses := accesses st @ map (\<lambda>w. Write (fst w)) ws\<rparr>"
  by (induction ws arbitrary: st) (simp_all add: array_write_def writes_to_def)

lemma writes_to_notin: "p \<notin> set (map fst ws) \<Longrightarrow> writes_to ws a p = a p"
  unfolding writes_to_def by (induction ws arbitrary: a) auto

lemma writes_to_in:
  "distinct (map fst ws) \<Longrightarrow> (p, v) \<in> set ws \<Longrightarrow> writes_to ws a p = v"
proof (induction ws arbitrary: a)
  case Nil
  then show ?case by simp
next
  case (Cons w ws)
  show ?case
  proof (cases "(p, v) = w")
    case True
    from Cons.prems(1) have "fst w \<notin> set (map fst ws)" by simp
    with True have "p \<notin> set (map fst ws)" by (metis fst_conv)
    then have "writes_to ws (a(fst w := snd w)) p = (a(fst w := snd w)) p"
      by (rule writes_to_notin)
    then show ?thesis using True by (auto simp: writes_to_def)
  next
    case False
    then have "writes_to ws (a(fst w := snd w)) p = v" using Cons by auto
    then show ?thesis by (simp add: writes_to_def)
  qed
qed

lemma unat_of_nat_u32: "k < 2 ^ 32 \<Longrightarrow> unat (of_nat k :: u32) = k"
  by (simp add: unat_of_nat)

lemma unat_elems_pred: "(elems::u32) \<noteq> 0 \<Longrightarrow> unat (elems - 1) = unat elems - 1"
  by (rule unat_minus_one)

lemma last_iff: "(i::u32) < elems \<Longrightarrow> i = elems - 1 \<longleftrightarrow> Suc (unat i) = unat elems"
proof -
  assume a: "i < elems"
  then have ne: "elems \<noteq> 0" by auto
  have "i = elems - 1 \<longleftrightarrow> unat i = unat (elems - 1)" by (simp add: word_unat_eq_iff)
  also have "\<dots> \<longleftrightarrow> unat i = unat elems - 1" by (simp add: unat_minus_one [OF ne])
  also have "\<dots> \<longleftrightarrow> Suc (unat i) = unat elems"
    using a by (auto simp: word_less_nat_alt)
  finally show ?thesis .
qed

lemma fillShuffled_loop_writes:
  "fillShuffled_loop stride elems indexes i st =
     apply_writes (map (link stride (unat elems) indexes) [unat i..<unat elems]) st"
proof (induction stride elems indexes i st rule: fillShuffled_loop.induct)
  case (1 stride elems indexes i st)
  show ?case
  proof (cases "i < elems")
    case True
    then have lt: "unat i < unat elems" by (simp add: word_less_nat_alt)
    have upt: "[unat i..<unat elems] = unat i # [unat (i + 1)..<unat elems]"
      using lt by (simp add: upt_conv_Cons unat_Suc_less [OF True])
    show ?thesis
      using True "1.IH" [OF True]
      by (subst fillShuffled_loop.simps)
         (simp add: upt link_def last_iff [OF True] unat_Suc_less [OF True])
  next
    case False
    then have "unat elems \<le> unat i" by (simp add: word_less_nat_alt)
    then show ?thesis using False by (subst fillShuffled_loop.simps) simp
  qed
qed

lemma iota_loop_eq:
  "length xs = unat elems \<Longrightarrow>
   iota_loop elems i xs = take (unat i) xs @ map of_nat [unat i..<unat elems]"
proof (induction elems i xs rule: iota_loop.induct)
  case (1 elems i indexes)
  show ?case
  proof (cases "i < elems")
    case True
    then have lt: "unat i < unat elems" by (simp add: word_less_nat_alt)
    have upt: "[unat i..<unat elems] = unat i # [Suc (unat i)..<unat elems]"
      using lt by (simp add: upt_conv_Cons)
    have "iota_loop elems i indexes = iota_loop elems (i + 1) (indexes[unat i := i])"
      using True by (subst iota_loop.simps) simp
    also have "\<dots> = take (Suc (unat i)) (indexes[unat i := i]) @ map of_nat [Suc (unat i)..<unat elems]"
      using "1.IH" [OF True] "1.prems" by (simp add: unat_Suc_less [OF True])
    also have "take (Suc (unat i)) (indexes[unat i := i]) = take (unat i) indexes @ [i]"
      using lt "1.prems" by (simp add: take_Suc_conv_app_nth)
    finally show ?thesis by (simp add: upt)
  next
    case False
    then have "unat elems \<le> unat i" by (simp add: word_less_nat_alt)
    then show ?thesis using False "1.prems" by (subst iota_loop.simps) simp
  qed
qed

lemma iota_loop_iota: "iota_loop elems 0 (replicate (unat elems) 0) = iota (unat elems)"
  by (simp add: iota_loop_eq iota_def)

lemma read_loop_chase: "read_loop n i idx st = chase (unat n - unat i) idx st"
proof (induction n i idx st rule: read_loop.induct)
  case (1 n i idx st)
  show ?case
  proof (cases "i < n")
    case True
    then have lt: "unat i < unat n" by (simp add: word_less_nat_alt)
    then have d: "unat n - unat i = Suc (unat n - unat (i + 1))"
      by (simp add: unat_Suc_less [OF True])
    show ?thesis
      using True "1.IH" [OF True]
      by (subst read_loop.simps) (simp add: d array_read_def)
  next
    case False
    then have "unat n - unat i = 0" by (simp add: word_less_nat_alt)
    then show ?thesis using False by (subst read_loop.simps) simp
  qed
qed

lemma chase_eq:
  "chase k idx st =
     ((array st ^^ k) idx,
      st\<lparr>accesses := accesses st @ map (\<lambda>j. Read ((array st ^^ j) idx)) [0..<k]\<rparr>)"
proof (induction k arbitrary: idx st)
  case 0
  then show ?case by simp
next
  case (Suc k)
  have m: "map (\<lambda>j. Read ((array st ^^ j) idx)) [0..<Suc k] =
           Read idx # map (\<lambda>j. Read ((array st ^^ j) (array st idx))) [0..<k]"
    by (simp add: map_upt_Suc funpow_swap1 del: upt_Suc)
  show ?case
    by (simp add: Suc.IH array_read_def m funpow_swap1 del: upt_Suc)
qed

lemma read_loop_eq:
  "read_loop n 0 idx st =
     ((array st ^^ unat n) idx,
      st\<lparr>accesses := accesses st @ map (\<lambda>j. Read ((array st ^^ j) idx)) [0..<unat n]\<rparr>)"
  by (simp add: read_loop_chase chase_eq)

lemma cycle_funpow:
  assumes "\<forall>k<n. a (ps ! k) = ps ! (Suc k mod n)" and "k < n"
  shows "(a ^^ j) (ps ! k) = ps ! ((k + j) mod n)"
proof (induction j)
  case 0
  then show ?case using assms(2) by simp
next
  case (Suc j)
  have "(k + j) mod n < n" using assms(2) by simp
  then have "a (ps ! ((k + j) mod n)) = ps ! (Suc ((k + j) mod n) mod n)"
    using assms(1) by blast
  then show ?case by (simp add: Suc.IH mod_Suc_eq)
qed

lemma distinct_iota: "n \<le> 2 ^ 32 \<Longrightarrow> distinct (iota n)"
proof -
  assume n: "n \<le> 2 ^ 32"
  have "inj_on (of_nat :: nat \<Rightarrow> u32) (set [0..<n])"
  proof (rule inj_onI)
    fix x y assume "x \<in> set [0..<n]" "y \<in> set [0..<n]" "(of_nat x :: u32) = of_nat y"
    then have "unat (of_nat x :: u32) = unat (of_nat y :: u32)" "x < 2 ^ 32" "y < 2 ^ 32"
      using n by auto
    then show "x = y" by (simp add: unat_of_nat_u32)
  qed
  then show ?thesis by (simp add: iota_def distinct_map)
qed

lemma length_iota [simp]: "length (iota n) = n"
  by (simp add: iota_def)

lemma length_footprint [simp]: "length (footprint stride elems) = unat elems"
  by (simp add: footprint_def)

lemma footprint_nth: "k < unat elems \<Longrightarrow> footprint stride elems ! k = of_nat k * stride"
  by (simp add: footprint_def iota_def)

lemma zero_in_footprint: "elems \<noteq> 0 \<Longrightarrow> 0 \<in> set (footprint stride elems)"
proof -
  assume "elems \<noteq> 0"
  then have "0 < unat elems" by (simp add: unat_gt_0)
  then have "footprint stride elems ! 0 \<in> set (footprint stride elems)"
    by (intro nth_mem) simp
  then show ?thesis using \<open>0 < unat elems\<close> by (simp add: footprint_nth)
qed

lemma fillShuffledIndexes_eq:
  "fillShuffledIndexes shuffle stride elems seed st =
     apply_writes
       (map (link stride (unat elems) (fst (shuffle (gen st) (iota (unat elems))))) [0..<unat elems])
       (st\<lparr>gen := snd (shuffle (gen st) (iota (unat elems))),
           draws := draws st @ [fst (shuffle (gen st) (iota (unat elems)))]\<rparr>)"
  by (simp add: fillShuffledIndexes_def iota_loop_iota fillShuffled_loop_writes
      split: prod.splits)

lemma shuffled_positions_mset:
  "permutes shuffle \<Longrightarrow>
   mset (shuffled_positions shuffle stride elems st) = mset (footprint stride elems)"
  by (simp add: shuffled_positions_def footprint_def permutes_def)

lemma shuffled_positions_length:
  "permutes shuffle \<Longrightarrow> length (shuffled_positions shuffle stride elems st) = unat elems"
  using mset_eq_length [OF shuffled_positions_mset] by fastforce

lemma shuffled_positions_set:
  "permutes shuffle \<Longrightarrow>
   set (shuffled_positions shuffle stride elems st) = set (footprint stride elems)"
  using mset_eq_setD [OF shuffled_positions_mset] by blast

lemma shuffled_positions_distinct:
  "permutes shuffle \<Longrightarrow> distinct (footprint stride elems) \<Longrightarrow>
   distinct (shuffled_positions shuffle stride elems st)"
  using mset_eq_imp_distinct_iff [OF shuffled_positions_mset] by blast

lemma shuffled_links:
  assumes "permutes shuffle"
  shows "map (link stride (unat elems) (fst (shuffle (gen st) (iota (unat elems)))))
           [0..<unat elems] =
         map (\<lambda>k. (shuffled_positions shuffle stride elems st ! k,
                    shuffled_positions shuffle stride elems st ! (Suc k mod unat elems)))
           [0..<unat elems]"
proof -
  let ?sh = "fst (shuffle (gen st) (iota (unat elems)))"
  have len: "length ?sh = unat elems"
    using shuffled_positions_length [OF assms, of stride elems st]
    by (simp add: shuffled_positions_def)
  have "k < unat elems \<Longrightarrow> (if Suc k = unat elems then 0 else Suc k) = Suc k mod unat elems" for k
    by (auto simp: mod_Suc)
  moreover have "k < unat elems \<Longrightarrow> Suc k mod unat elems < unat elems" for k
    by simp
  ultimately show ?thesis
    by (intro map_cong refl) (simp add: link_def shuffled_positions_def len)
qed

lemma fillShuffledIndexes_state:
  assumes "permutes shuffle"
  shows "fillShuffledIndexes shuffle stride elems seed st =
     st\<lparr>array := writes_to
            (map (\<lambda>k. (shuffled_positions shuffle stride elems st ! k,
                       shuffled_positions shuffle stride elems st ! (Suc k mod unat elems)))
               [0..<unat elems]) (array st),
         gen := snd (shuffle (gen st) (iota (unat elems))),
         accesses := accesses st @ map Write (shuffled_positions shuffle stride elems st),
         draws := draws st @ [fst (shuffle (gen st) (iota (unat elems)))]\<rparr>"
proof -
  let ?ps = "shuffled_positions shuffle stride elems st"
  have "map (\<lambda>k. Write (?ps ! k)) [0..<unat elems] = map Write (map ((!) ?ps) [0..<length ?ps])"
    by (simp add: shuffled_positions_length [OF assms])
  also have "\<dots> = map Write ?ps" by (simp only: map_nth)
  finally show ?thesis
    by (simp add: fillShuffledIndexes_eq shuffled_links [OF assms] apply_writes_eq o_def)
qed

lemma fillShuffledIndexes_next:
  assumes "permutes shuffle" and "distinct (footprint stride elems)" and "k < unat elems"
  shows "array (fillShuffledIndexes shuffle stride elems seed st)
           (shuffled_positions shuffle stride elems st ! k) =
         shuffled_positions shuffle stride elems st ! (Suc k mod unat elems)"
proof -
  let ?ps = "shuffled_positions shuffle stride elems st"
  let ?ws = "map (\<lambda>k. (?ps ! k, ?ps ! (Suc k mod unat elems))) [0..<unat elems]"
  have len: "length ?ps = unat elems" by (rule shuffled_positions_length [OF assms(1)])
  have "map fst ?ws = map ((!) ?ps) [0..<length ?ps]" by (simp add: len o_def)
  then have "map fst ?ws = ?ps" by (simp only: map_nth)
  then have "distinct (map fst ?ws)"
    using shuffled_positions_distinct [OF assms(1,2), of st] by simp
  moreover have "(?ps ! k, ?ps ! (Suc k mod unat elems)) \<in> set ?ws"
    using assms(3) by auto
  ultimately have "writes_to ?ws (array st) (?ps ! k) = ?ps ! (Suc k mod unat elems)"
    by (rule writes_to_in)
  then show ?thesis by (simp add: fillShuffledIndexes_state [OF assms(1)])
qed

lemma fillShuffledIndexes_frame:
  assumes "permutes shuffle" and "p \<notin> set (footprint stride elems)"
  shows "array (fillShuffledIndexes shuffle stride elems seed st) p = array st p"
proof -
  let ?ps = "shuffled_positions shuffle stride elems st"
  let ?ws = "map (\<lambda>k. (?ps ! k, ?ps ! (Suc k mod unat elems))) [0..<unat elems]"
  have len: "length ?ps = unat elems" by (rule shuffled_positions_length [OF assms(1)])
  have "map fst ?ws = map ((!) ?ps) [0..<length ?ps]" by (simp add: len o_def)
  then have "map fst ?ws = ?ps" by (simp only: map_nth)
  then have "p \<notin> set (map fst ?ws)"
    using assms(2) shuffled_positions_set [OF assms(1), of stride elems st] by simp
  then have "writes_to ?ws (array st) p = array st p" by (rule writes_to_notin)
  then show ?thesis by (simp add: fillShuffledIndexes_state [OF assms(1)])
qed

lemma cycle_writes_fst: "map fst (cycle_writes ps) = ps"
proof -
  have "map fst (cycle_writes ps) = map ((!) ps) [0..<length ps]"
    by (simp add: cycle_writes_def o_def)
  then show ?thesis by (simp only: map_nth)
qed

lemma cycle_writes_accesses: "map (\<lambda>w. Write (fst w)) (cycle_writes ps) = map Write ps"
  using arg_cong [OF cycle_writes_fst, of "map Write" ps] by (simp add: o_def)

lemma cycle_next:
  assumes "distinct ps" and "k < length ps"
  shows "writes_to (cycle_writes ps) a (ps ! k) = ps ! (Suc k mod length ps)"
proof -
  have "(ps ! k, ps ! (Suc k mod length ps)) \<in> set (cycle_writes ps)"
    using assms(2) by (auto simp: cycle_writes_def)
  then show ?thesis
    using assms(1) by (intro writes_to_in) (simp_all add: cycle_writes_fst)
qed

lemma cycle_frame: "p \<notin> set ps \<Longrightarrow> writes_to (cycle_writes ps) a p = a p"
  by (rule writes_to_notin) (simp add: cycle_writes_fst)

lemma cycle_orbit:
  assumes "distinct ps" and "z < length ps"
  shows "(writes_to (cycle_writes ps) a ^^ j) (ps ! z) = ps ! ((z + j) mod length ps)"
  by (rule cycle_funpow) (use assms cycle_next in auto)

lemma cycle_closed:
  assumes "distinct ps" and "p \<in> set ps"
  shows "(writes_to (cycle_writes ps) a ^^ j) p \<in> set ps"
proof -
  from assms(2) obtain z where z: "z < length ps" "ps ! z = p"
    by (auto simp: in_set_conv_nth)
  then have "length ps > 0" by auto
  then have "(z + j) mod length ps < length ps" by simp
  then show ?thesis
    using cycle_orbit [OF assms(1) z(1), where a = a and j = j] z(2) by (metis nth_mem)
qed

lemma unat_u32_bound: "unat (w::u32) < 2 ^ 32"
  using unsigned_less [of w] by simp

lemma unat_pos:
  assumes "unat (stride::u32) * (unat (elems::u32) - 1) < 2 ^ 32" and "k < unat elems"
  shows "unat (of_nat k * stride :: u32) = k * unat stride"
proof -
  have "k < 2 ^ 32" using assms(2) unat_u32_bound [of elems] by simp
  then have k: "unat (of_nat k :: u32) = k" by (rule unat_of_nat_u32)
  have "k \<le> unat elems - 1" using assms(2) by simp
  then have "k * unat stride \<le> (unat elems - 1) * unat stride" by (rule mult_le_mono1)
  moreover have "(unat elems - 1) * unat stride < 2 ^ 32"
    using assms(1) by (simp only: mult.commute)
  ultimately have "k * unat stride < 2 ^ 32" by (rule le_less_trans)
  then have "unat (of_nat k :: u32) * unat stride < 2 ^ LENGTH(32)"
    by (simp add: k)
  then show ?thesis using k by (simp only: unat_mult_lem [THEN iffD1])
qed

lemma footprint_distinct:
  assumes "stride \<noteq> 0" and "unat stride * (unat (elems::u32) - 1) < 2 ^ 32"
  shows "distinct (footprint stride elems)"
proof -
  have s: "0 < unat stride" using assms(1) by (simp add: unat_gt_0)
  have "inj_on (\<lambda>k. of_nat k * stride) (set [0..<unat elems])"
  proof (rule inj_onI)
    fix x y
    assume "x \<in> set [0..<unat elems]" "y \<in> set [0..<unat elems]"
      and eq: "(of_nat x * stride :: u32) = of_nat y * stride"
    then have "x < unat elems" "y < unat elems" by simp_all
    then have "x * unat stride = y * unat stride"
      using arg_cong [OF eq, of unat] by (simp add: unat_pos [OF assms(2)])
    then show "x = y" using s by simp
  qed
  then show ?thesis by (simp add: footprint_def iota_def distinct_map o_def)
qed

lemma last_pos:
  assumes "(elems::u32) \<noteq> 0"
  shows "stride * (elems - 1) = of_nat (unat elems - 1) * stride"
proof -
  have "elems - 1 = of_nat (unat (elems - 1))" by simp
  also have "unat (elems - 1) = unat elems - 1" by (rule unat_minus_one [OF assms])
  finally show ?thesis by (simp only: mult.commute)
qed

lemma cycle_writes_nth:
  "k < length ps \<Longrightarrow> cycle_writes ps ! k = (ps ! k, ps ! (Suc k mod length ps))"
  by (simp add: cycle_writes_def)

lemma length_cycle_writes [simp]: "length (cycle_writes ps) = length ps"
  by (simp add: cycle_writes_def)

lemma fillDirect_loop_writes:
  assumes "stride \<noteq> 0" and "unat stride * (unat elems - 1) < 2 ^ 32" and "k < unat elems"
  shows "fillDirect_loop stride elems (of_nat k * stride) st =
         Some (apply_writes (drop k (cycle_writes (footprint stride elems))) st)"
  using assms(3)
proof (induction "unat elems - Suc k" arbitrary: k st)
  case 0
  then have k: "Suc k = unat elems" by simp
  then have ne: "elems \<noteq> 0" by auto
  have L: "stride * (elems - 1) = of_nat k * stride"
    using k last_pos [OF ne, of stride] by (metis diff_Suc_1)
  have "drop k (cycle_writes (footprint stride elems)) =
        cycle_writes (footprint stride elems) ! k # drop (Suc k) (cycle_writes (footprint stride elems))"
    using "0.prems" by (intro Cons_nth_drop_Suc [symmetric]) simp
  also have "\<dots> = [(of_nat k * stride, 0)]"
    using "0.prems" k by (simp add: cycle_writes_nth footprint_nth)
  finally show ?case
    by (subst fillDirect_loop.simps) (simp add: L)
next
  case (Suc d)
  then have k: "Suc k < unat elems" by simp
  then have ne: "elems \<noteq> 0" by auto
  have s: "0 < unat stride" using assms(1) by (simp add: unat_gt_0)
  have uL: "unat (stride * (elems - 1)) = (unat elems - 1) * unat stride"
    using unat_pos [OF assms(2), of "unat elems - 1"] ne
    by (simp add: last_pos [OF ne] unat_gt_0)
  have uk: "unat (of_nat k * stride :: u32) = k * unat stride"
    using k by (intro unat_pos [OF assms(2)]) simp
  have "k \<le> unat elems - 1" using k by simp
  then have le: "of_nat k * stride \<le> stride * (elems - 1)"
    by (simp add: word_le_nat_alt uL uk)
  have neq: "of_nat k * stride \<noteq> stride * (elems - 1)"
  proof
    assume "of_nat k * stride = stride * (elems - 1)"
    then have "unat (of_nat k * stride :: u32) = unat (stride * (elems - 1))"
      by (rule arg_cong)
    then have "k * unat stride = (unat elems - 1) * unat stride"
      by (simp only: uL uk)
    then have "k = unat elems - 1" using s by simp
    then show False using k by simp
  qed
  have step: "of_nat k * stride + stride = of_nat (Suc k) * stride"
    by (simp add: algebra_simps)
  have "drop k (cycle_writes (footprint stride elems)) =
        cycle_writes (footprint stride elems) ! k # drop (Suc k) (cycle_writes (footprint stride elems))"
    using Suc.prems by (intro Cons_nth_drop_Suc [symmetric]) simp
  also have "cycle_writes (footprint stride elems) ! k = (of_nat k * stride, of_nat (Suc k) * stride)"
    using k by (simp add: cycle_writes_nth footprint_nth)
  finally have d: "drop k (cycle_writes (footprint stride elems)) =
      (of_nat k * stride, of_nat (Suc k) * stride) # drop (Suc k) (cycle_writes (footprint stride elems))" .
  have "d = unat elems - Suc (Suc k)" using Suc.hyps(2) by simp
  from Suc.hyps(1) [OF this k]
  show ?case
    using le neq by (subst fillDirect_loop.simps) (simp add: d step)
qed

lemma fillDirectIndexes_writes:
  assumes "stride \<noteq> 0" and "elems \<noteq> 0" and "unat stride * (unat elems - 1) < 2 ^ 32"
  shows "fillDirectIndexes stride elems st =
         Some (apply_writes (cycle_writes (footprint stride elems)) st)"
  using fillDirect_loop_writes [OF assms(1,3), of 0 st] assms(2)
  by (simp add: fillDirectIndexes_def unat_gt_0)

lemma of_nat_less_elems: "c < unat (elems::u32) \<Longrightarrow> (of_nat c :: u32) < elems"
proof -
  assume c: "c < unat elems"
  then have "c < 2 ^ 32" using unat_u32_bound [of elems] by simp
  then have "unat (of_nat c :: u32) = c" by (rule unat_of_nat_u32)
  then show ?thesis using c by (simp add: word_less_nat_alt)
qed

lemma fillReverse_loop_writes:
  assumes "stride \<noteq> 0" and "unat stride * (unat elems - 1) < 2 ^ 32" and "m < unat elems"
  shows "fillReverse_loop stride elems (of_nat m * stride) (of_nat (unat elems - Suc m))
           (st :: 'g state) =
         apply_writes (drop (unat elems - Suc m) (cycle_writes (rev (footprint stride elems)))) st"
  using assms(3)
proof (induction m arbitrary: st)
  case 0
  let ?n = "unat elems"
  let ?ws = "cycle_writes (rev (footprint stride elems))"
  have ne: "elems \<noteq> 0" using 0 by auto
  have c: "?n - Suc 0 < ?n" using 0 by simp
  have cnt: "(of_nat (?n - Suc 0) :: u32) < elems" by (rule of_nat_less_elems [OF c])
  have "drop (?n - Suc 0) ?ws = ?ws ! (?n - Suc 0) # drop (Suc (?n - Suc 0)) ?ws"
    using c by (intro Cons_nth_drop_Suc [symmetric]) simp
  also have "?ws ! (?n - Suc 0) = (0, stride * (elems - 1))"
    using 0 by (simp add: cycle_writes_nth rev_nth footprint_nth last_pos [OF ne])
  finally have d: "drop (?n - Suc 0) ?ws = [(0, stride * (elems - 1))]"
    using 0 by simp
  show ?case
    using cnt by (subst fillReverse_loop.simps) (simp add: d)
next
  case (Suc m)
  let ?n = "unat elems"
  let ?ws = "cycle_writes (rev (footprint stride elems))"
  define c where "c = ?n - Suc (Suc m)"
  have c: "Suc c = ?n - Suc m" "Suc c < ?n" "?n - Suc c = Suc m" "?n - Suc (Suc c) = m" "c < ?n"
    using Suc.prems by (simp_all add: c_def)
  have cnt: "(of_nat c :: u32) < elems" by (rule of_nat_less_elems [OF c(5)])
  have s: "0 < unat stride" using assms(1) by (simp add: unat_gt_0)
  have "unat (of_nat (Suc m) * stride :: u32) = Suc m * unat stride"
    by (rule unat_pos [OF assms(2) Suc.prems])
  then have "unat (of_nat (Suc m) * stride :: u32) \<noteq> 0" using s by simp
  then have nz: "(of_nat (Suc m) * stride :: u32) \<noteq> 0" by auto
  have step: "of_nat (Suc m) * stride - stride = of_nat m * stride"
    by (simp add: algebra_simps)
  have "drop c ?ws = ?ws ! c # drop (Suc c) ?ws"
    using c(5) by (intro Cons_nth_drop_Suc [symmetric]) simp
  also have "?ws ! c = (of_nat (Suc m) * stride, of_nat m * stride)"
    using c Suc.prems by (simp add: cycle_writes_nth rev_nth footprint_nth)
  finally have d: "drop c ?ws = (of_nat (Suc m) * stride, of_nat m * stride) # drop (Suc c) ?ws" .
  have m: "m < ?n" using Suc.prems by simp
  have IH: "fillReverse_loop stride elems (of_nat m * stride) (of_nat (Suc c)) st' =
            apply_writes (drop (Suc c) ?ws) st'" for st' :: "'g state"
    using Suc.IH [OF m, of st'] by (simp only: c(1))
  have cnt1: "(of_nat c :: u32) + 1 = of_nat (Suc c)" by simp
  show ?case
    unfolding c_def [symmetric]
    using cnt nz by (subst fillReverse_loop.simps) (simp only: d step IH cnt1 if_True if_False apply_writes.simps fst_conv snd_conv)
qed

lemma fillReverseIndexes_writes:
  assumes "stride \<noteq> 0" and "elems \<noteq> 0" and "unat stride * (unat elems - 1) < 2 ^ 32"
  shows "fillReverseIndexes stride elems st =
         apply_writes (cycle_writes (rev (footprint stride elems))) st"
proof -
  have "unat elems - 1 < unat elems" using assms(2) by (simp add: unat_gt_0)
  from fillReverse_loop_writes [OF assms(1,3) this, of st]
  show ?thesis
    using assms(2) by (simp add: fillReverseIndexes_def last_pos [OF assms(2)] unat_gt_0)
qed

subsection \<open>Concrete shuffle\<close>

lemma mset_rotate_eq: "mset (rotate g xs) = mset xs"
proof -
  let ?k = "g mod length xs"
  have "mset (rotate g xs) = mset (drop ?k xs) + mset (take ?k xs)"
    by (simp add: rotate_drop_take)
  also have "\<dots> = mset (take ?k xs) + mset (drop ?k xs)"
    by (rule add.commute)
  also have "\<dots> = mset (take ?k xs @ drop ?k xs)"
    by (simp only: mset_append)
  finally show ?thesis by (simp only: append_take_drop_id)
qed

lemma permutes_rotating: "permutes rotating"
  by (simp add: permutes_def rotating_def mset_rotate_eq)

subsection \<open>C1: the shuffled pattern is a single cycle\<close>

text \<open>
  C1, amended. Let \<open>fillShuffledIndexes\<close> run with \<open>elems \<ge> 1\<close> and let the \<open>elems\<close>
  positions \<open>i * stride\<close>, as computed in 32-bit arithmetic, be pairwise distinct (they
  are whenever \<open>stride \<ge> 1\<close> and \<open>(elems - 1) * stride < 2^32\<close>, lemma
  \<open>footprint_distinct\<close>). Then the chase \<open>index \<leftarrow> buffer[index]\<close> started at position
  0 is back at position 0 after \<open>elems\<close> steps; the positions at which it stands after
  \<open>0, 1, \<dots>, elems - 1\<close> steps start with 0, are pairwise distinct (so no position is
  visited twice, and position 0 is not reached again before step \<open>elems\<close>) and are
  exactly the positions of the footprint; and they are the indices the chase reads.
\<close>

theorem fillShuffledIndexes_single_cycle:
  assumes "permutes shuffle" and "elems \<noteq> 0" and "distinct (footprint stride elems)"
  shows "let st1 = fillShuffledIndexes shuffle stride elems seed st;
             visited = map (\<lambda>k. fst (read_loop (of_nat k) 0 0 st1)) [0..<unat elems]
         in fst (read_loop elems 0 0 st1) = 0 \<and> hd visited = 0 \<and> distinct visited
            \<and> set visited = set (footprint stride elems)
            \<and> accesses (snd (read_loop elems 0 0 st1)) = accesses st1 @ map Read visited"
proof -
  define st1 where "st1 = fillShuffledIndexes shuffle stride elems seed st"
  define ps where "ps = shuffled_positions shuffle stride elems st"
  define n where "n = unat elems"
  define visited where
    "visited = map (\<lambda>k. fst (read_loop (of_nat k) 0 0 st1)) [0..<n]"
  have n: "0 < n" using assms(2) by (simp add: n_def unat_gt_0)
  have len: "length ps = n"
    by (simp add: ps_def n_def shuffled_positions_length [OF assms(1)])
  have dist: "distinct ps"
    unfolding ps_def by (rule shuffled_positions_distinct [OF assms(1,3)])
  have set: "set ps = set (footprint stride elems)"
    unfolding ps_def by (rule shuffled_positions_set [OF assms(1)])
  have cyc: "\<forall>k<n. array st1 (ps ! k) = ps ! (Suc k mod n)"
    unfolding st1_def ps_def n_def
    using fillShuffledIndexes_next [OF assms(1,3)] by blast
  have "0 \<in> set ps" using zero_in_footprint [OF assms(2)] set by simp
  then obtain z where z: "z < n" "ps ! z = 0"
    using len by (auto simp: in_set_conv_nth)
  have orbit: "(array st1 ^^ j) 0 = ps ! ((z + j) mod n)" for j
    using cycle_funpow [OF cyc z(1), of j] z(2) by simp
  have steps: "fst (read_loop (of_nat k) 0 0 st1) = ps ! ((z + k) mod n)" if "k < n" for k
  proof -
    have "unat elems < 2 ^ 32" using unsigned_less [of elems] by simp
    then have "k < 2 ^ 32" using that by (simp add: n_def)
    then show ?thesis by (simp add: read_loop_eq unat_of_nat_u32 orbit)
  qed
  have vis: "visited = rotate z ps"
    by (rule nth_equalityI) (simp_all add: visited_def len steps nth_rotate)
  have ret: "fst (read_loop elems 0 0 st1) = 0"
    using z by (simp add: read_loop_eq orbit n_def [symmetric])
  have hd0: "hd visited = 0"
    using n by (simp add: visited_def hd_map upt_conv_Cons read_loop_eq)
  have reads: "accesses (snd (read_loop elems 0 0 st1)) = accesses st1 @ map Read visited"
  proof -
    have "map (\<lambda>j. Read ((array st1 ^^ j) 0)) [0..<n] = map Read visited"
      unfolding visited_def by (simp add: steps orbit)
    then show ?thesis by (simp add: read_loop_eq n_def [symmetric])
  qed
  have "fst (read_loop elems 0 0 st1) = 0 \<and> hd visited = 0 \<and> distinct visited
        \<and> set visited = set (footprint stride elems)
        \<and> accesses (snd (read_loop elems 0 0 st1)) = accesses st1 @ map Read visited"
    using ret hd0 reads dist set by (simp add: vis)
  then show ?thesis
    unfolding Let_def st1_def visited_def n_def .
qed

text \<open>
  An instance: stride 4, three elements, the engine at 1, so that the shuffle yields the
  order 1, 2, 0; the chase visits 0, 4, 8 and returns to 0.
\<close>

theorem fillShuffledIndexes_single_cycle_witness:
  "permutes rotating \<and> (3::u32) \<noteq> 0 \<and> distinct (footprint 4 3) \<and>
   (let st1 = fillShuffledIndexes rotating 4 3 42 (initial 1 (\<lambda>_. 0));
        visited = map (\<lambda>k. fst (read_loop (of_nat k) 0 0 st1)) [0..<unat (3::u32)]
    in fst (read_loop 3 0 0 st1) = 0 \<and> hd visited = 0 \<and> distinct visited
       \<and> set visited = set (footprint 4 3)
       \<and> accesses (snd (read_loop 3 0 0 st1)) = accesses st1 @ map Read visited)"
proof -
  have n: "(3::u32) \<noteq> 0" by simp
  have d: "distinct (footprint 4 3)" by code_simp
  from fillShuffledIndexes_single_cycle [OF permutes_rotating n d]
  show ?thesis using permutes_rotating n d by blast
qed

text \<open>
  C1 as stated, for every \<open>stride \<ge> 1\<close> and \<open>elems \<ge> 1\<close>, fails where the positions
  wrap around: with stride \<open>2^31\<close> and three elements the positions are 0, \<open>2^31\<close> and
  \<open>2 * 2^31 = 0\<close>. The generator writes the indices 0, \<open>2^31\<close>, 0 (a buffer of
  \<open>2^31 + 1\<close> elements holds them all), the chase is back at 0 after one step, and the
  positions of its first three steps are not distinct.
\<close>

theorem fillShuffledIndexes_single_cycle_counterexample:
  "let st1 = fillShuffledIndexes rotating (2 ^ 31) 3 42 (initial 0 (\<lambda>_. 0))
   in fst (read_loop 1 0 0 st1) = 0
      \<and> \<not> distinct (map (\<lambda>k. fst (read_loop (of_nat k) 0 0 st1)) [0..<unat (3::u32)])
      \<and> map addr (accesses st1) = [0, 2 ^ 31, 0]"
  by code_simp

subsection \<open>Direct and reverse patterns without wrap-around\<close>

lemma word_pos: "(i::u32) * stride = footprint stride elems ! unat i" if "i < elems"
proof -
  have "unat i < unat elems" using that by (simp add: word_less_nat_alt)
  then show ?thesis by (simp add: footprint_nth)
qed

lemma direct_next:
  assumes "stride \<noteq> 0" and "unat stride * (unat elems - 1) < 2 ^ 32" and "k < unat elems"
  shows "array (apply_writes (cycle_writes (footprint stride elems)) st) (of_nat k * stride) =
         (if Suc k = unat elems then 0 else of_nat (Suc k) * stride)"
proof -
  let ?fp = "footprint stride elems"
  have "writes_to (cycle_writes ?fp) (array st) (?fp ! k) = ?fp ! (Suc k mod length ?fp)"
    using assms(3) by (intro cycle_next footprint_distinct [OF assms(1,2)]) simp
  moreover have "Suc k \<noteq> unat elems \<Longrightarrow> Suc k mod unat elems = Suc k"
    using assms(3) by simp
  ultimately show ?thesis
    using assms(3) by (auto simp: apply_writes_eq footprint_nth)
qed

lemma reverse_next:
  assumes "stride \<noteq> 0" and "unat stride * (unat elems - 1) < 2 ^ 32" and "k < unat elems"
  shows "array (apply_writes (cycle_writes (rev (footprint stride elems))) st) (of_nat k * stride) =
         (if k = 0 then of_nat (unat elems - 1) * stride else of_nat (k - 1) * stride)"
proof -
  let ?fp = "footprint stride elems"
  let ?n = "unat elems"
  define c where "c = ?n - Suc k"
  have c: "c < ?n" "?n - Suc c = k" using assms(3) by (simp_all add: c_def)
  have d: "distinct (rev ?fp)" using footprint_distinct [OF assms(1,2)] by simp
  have "writes_to (cycle_writes (rev ?fp)) (array st) (rev ?fp ! c) =
        rev ?fp ! (Suc c mod length (rev ?fp))"
    using c(1) by (intro cycle_next d) simp
  moreover have "rev ?fp ! c = of_nat k * stride"
    using c assms(3) by (simp add: rev_nth footprint_nth)
  moreover have "rev ?fp ! (Suc c mod length (rev ?fp)) =
        (if k = 0 then of_nat (?n - 1) * stride else of_nat (k - 1) * stride)"
  proof (cases "k = 0")
    case True
    then have "Suc c = ?n" using assms(3) by (simp add: c_def)
    then show ?thesis using True assms(3) by (simp add: rev_nth footprint_nth)
  next
    case False
    then have "Suc c < ?n" "?n - Suc (Suc c) = k - 1" using assms(3) by (simp_all add: c_def)
    then show ?thesis using False assms(3) by (simp add: rev_nth footprint_nth)
  qed
  ultimately show ?thesis by (simp add: apply_writes_eq)
qed

subsection \<open>C7: contents of the direct and reverse patterns\<close>

text \<open>
  C7, amended. For every \<open>stride \<ge> 1\<close> and \<open>elems \<ge> 1\<close> with
  \<open>(elems - 1) * stride < 2^32\<close> (the last position does not wrap around, as when the
  footprint lies inside the buffer): \<open>fillDirectIndexes\<close> returns, it writes the
  positions \<open>0, stride, \<dots>, (elems - 1) * stride\<close> in this order, and leaves
  \<open>buffer[i * stride] = (i + 1) * stride\<close> for each \<open>i\<close> in \<open>0..elems-2\<close> and
  \<open>buffer[(elems - 1) * stride] = 0\<close>; \<open>fillReverseIndexes\<close> writes the same positions
  in the opposite order and leaves \<open>buffer[i * stride] = (i - 1) * stride\<close> for each \<open>i\<close>
  in \<open>1..elems-1\<close> and \<open>buffer[0] = (elems - 1) * stride\<close>.
\<close>

theorem direct_reverse_contents:
  assumes "stride \<noteq> 0" and "elems \<noteq> 0" and "unat stride * (unat elems - 1) < 2 ^ 32"
  shows "(case fillDirectIndexes stride elems st of
            None \<Rightarrow> False
          | Some st' \<Rightarrow>
              accesses st' = accesses st @ map Write (footprint stride elems)
              \<and> (i < elems - 1 \<longrightarrow> array st' (i * stride) = (i + 1) * stride)
              \<and> array st' ((elems - 1) * stride) = 0)
         \<and> accesses (fillReverseIndexes stride elems st) =
             accesses st @ map Write (rev (footprint stride elems))
         \<and> (1 \<le> i \<and> i \<le> elems - 1 \<longrightarrow>
              array (fillReverseIndexes stride elems st) (i * stride) = (i - 1) * stride)
         \<and> array (fillReverseIndexes stride elems st) 0 = (elems - 1) * stride"
proof -
  let ?n = "unat elems"
  have n: "0 < ?n" using assms(2) by (simp add: unat_gt_0)
  have pred: "unat (elems - 1) = ?n - 1" by (rule unat_minus_one [OF assms(2)])
  have last: "(elems - 1) * stride = of_nat (?n - 1) * stride"
    using last_pos [OF assms(2), of stride] by (simp add: mult.commute)
  have D1: "array (apply_writes (cycle_writes (footprint stride elems)) st) (i * stride) =
            (i + 1) * stride" if "i < elems - 1"
  proof -
    have k: "Suc (unat i) < ?n" using that pred by (simp add: word_less_nat_alt)
    then have lt: "unat i < ?n" and ne: "Suc (unat i) \<noteq> ?n" by simp_all
    have e1: "(of_nat (Suc (unat i)) :: u32) = i + 1" by simp
    have e2: "(of_nat (unat i) :: u32) = i" by simp
    have "array (apply_writes (cycle_writes (footprint stride elems)) st)
            (of_nat (unat i) * stride) = of_nat (Suc (unat i)) * stride"
      using direct_next [OF assms(1,3) lt, of st] ne by (simp only: if_False)
    then show ?thesis by (simp only: e1 e2)
  qed
  have D2: "array (apply_writes (cycle_writes (footprint stride elems)) st) ((elems - 1) * stride) = 0"
  proof -
    have "array (apply_writes (cycle_writes (footprint stride elems)) st)
            (of_nat (?n - 1) * stride) = 0"
      using direct_next [OF assms(1,3), of "?n - 1" st] n by simp
    then show ?thesis by (simp only: last)
  qed
  have R1: "array (apply_writes (cycle_writes (rev (footprint stride elems))) st) (i * stride) =
            (i - 1) * stride" if "1 \<le> i" "i \<le> elems - 1"
  proof -
    have "1 \<le> unat i" "unat i \<le> ?n - 1"
      using that pred by (simp_all add: word_le_nat_alt)
    then have k: "unat i < ?n" "unat i \<noteq> 0" using n by simp_all
    have i0: "i \<noteq> 0" using k(2) by auto
    have "unat (i - 1) = unat i - 1" by (rule unat_minus_one [OF i0])
    then have "(of_nat (unat i - 1) :: u32) = of_nat (unat (i - 1))" by simp
    then have e1: "(of_nat (unat i - 1) :: u32) = i - 1" by simp
    have e2: "(of_nat (unat i) :: u32) = i" by simp
    have "array (apply_writes (cycle_writes (rev (footprint stride elems))) st)
            (of_nat (unat i) * stride) = of_nat (unat i - 1) * stride"
      using reverse_next [OF assms(1,3) k(1), of st] k(2) by (simp only: if_False)
    then show ?thesis by (simp only: e1 e2)
  qed
  have R2: "array (apply_writes (cycle_writes (rev (footprint stride elems))) st) 0 =
            (elems - 1) * stride"
  proof -
    have "array (apply_writes (cycle_writes (rev (footprint stride elems))) st) 0 =
            of_nat (?n - 1) * stride"
      using reverse_next [OF assms(1,3) n, of st] by simp
    then show ?thesis by (simp only: last)
  qed
  have FD: "fillDirectIndexes stride elems st =
            Some (apply_writes (cycle_writes (footprint stride elems)) st)"
    by (rule fillDirectIndexes_writes [OF assms])
  have FR: "fillReverseIndexes stride elems st =
            apply_writes (cycle_writes (rev (footprint stride elems))) st"
    by (rule fillReverseIndexes_writes [OF assms])
  have A1: "accesses (apply_writes (cycle_writes (footprint stride elems)) st) =
            accesses st @ map Write (footprint stride elems)"
    by (simp add: apply_writes_eq cycle_writes_accesses)
  have A2: "accesses (apply_writes (cycle_writes (rev (footprint stride elems))) st) =
            accesses st @ map Write (rev (footprint stride elems))"
    by (simp only: apply_writes_eq cycle_writes_accesses) simp
  show ?thesis
    unfolding FD FR option.case
    using A1 A2 D1 D2 R1 R2 by blast
qed

text \<open>
  The instance of the specification: \<open>elems = 4\<close>, \<open>stride = 1\<close>; the direct pattern
  yields the buffer \<open>[1, 2, 3, 0]\<close> and the reverse pattern \<open>[3, 0, 1, 2]\<close>.
\<close>

theorem direct_reverse_contents_witness:
  "(1::u32) \<noteq> 0 \<and> (4::u32) \<noteq> 0 \<and> unat (1::u32) * (unat (4::u32) - 1) < 2 ^ 32 \<and>
   (case fillDirectIndexes 1 4 (initial (0::nat) (\<lambda>_. 7)) of
      None \<Rightarrow> False
    | Some st' \<Rightarrow> map (array st') [0, 1, 2, 3] = [1, 2, 3, 0]
        \<and> accesses st' = [Write 0, Write 1, Write 2, Write 3]) \<and>
   map (array (fillReverseIndexes 1 4 (initial (0::nat) (\<lambda>_. 7)))) [0, 1, 2, 3] = [3, 0, 1, 2] \<and>
   accesses (fillReverseIndexes 1 4 (initial (0::nat) (\<lambda>_. 7))) =
     [Write 3, Write 2, Write 1, Write 0]"
proof -
  have h: "(1::u32) \<noteq> 0" "(4::u32) \<noteq> 0" "unat (1::u32) * (unat (4::u32) - 1) < 2 ^ 32"
    by simp_all
  have fp: "footprint 1 4 = [0, 1, 2, 3]" by code_simp
  note T = direct_reverse_contents [OF h, of "initial (0::nat) (\<lambda>_. 7)"]
  from T [of 0] T [of 1] T [of 2] T [of 3] show ?thesis
    by (auto simp: fp initial_def split: option.splits)
qed

text \<open>
  C7 as stated, for every \<open>stride \<ge> 1\<close> and \<open>elems \<ge> 1\<close>, fails where the product
  wraps around: with stride \<open>2^31\<close> and three elements, \<open>stride * (elems - 1)\<close> is 0 in
  32 bits, the loop of \<open>fillDirectIndexes\<close> writes \<open>buffer[0] = 0\<close> and stops, while
  the claim gives \<open>buffer[0 * stride] = (0 + 1) * stride\<close>.
\<close>

theorem direct_reverse_contents_counterexample:
  "case fillDirectIndexes (2 ^ 31) 3 (initial (0::nat) (\<lambda>_. 7)) of
     None \<Rightarrow> False
   | Some st' \<Rightarrow> array st' (0 * 2 ^ 31) \<noteq> (0 + 1) * 2 ^ 31 \<and> accesses st' = [Write 0]"
  by (simp add: fillDirectIndexes_def fillDirect_loop.simps array_write_def initial_def)

subsection \<open>C3: the generators and the chase stay inside the footprint\<close>

lemma ring_confined:
  assumes "distinct ps" and "set ps = set (footprint stride elems)" and "elems \<noteq> 0"
    and "array st' = writes_to (cycle_writes ps) (array st)"
    and "accesses st' = accesses st @ map Write ps"
  shows "confined stride elems st st' p m"
proof -
  have new: "new_accesses st st' = map Write ps"
    by (simp add: new_accesses_def assms(5))
  have w: "list_all (\<lambda>a. is_Write a \<and> addr a \<in> set (footprint stride elems)) (map Write ps)"
    using assms(2) by (simp add: list_all_iff)
  have f: "p \<notin> set (footprint stride elems) \<Longrightarrow> array st' p = array st p"
    using assms(2,4) by (simp add: cycle_frame)
  have z: "0 \<in> set ps" using zero_in_footprint [OF assms(3)] assms(2) by simp
  have inside: "(array st' ^^ j) 0 \<in> set (footprint stride elems)" for j
    using cycle_closed [OF assms(1) z, where a = "array st" and j = j] assms(2,4) by simp
  let ?rs = "map (\<lambda>j. Read ((array st' ^^ j) 0)) [0..<unat m]"
  have r: "read_loop m 0 0 st' = ((array st' ^^ unat m) 0, st'\<lparr>accesses := accesses st' @ ?rs\<rparr>)"
    by (rule read_loop_eq)
  have rn: "new_accesses st' (st'\<lparr>accesses := accesses st' @ ?rs\<rparr>) = ?rs"
    by (simp add: new_accesses_def)
  have rl: "list_all (\<lambda>a. \<not> is_Write a \<and> addr a \<in> set (footprint stride elems)) ?rs"
    using inside by (simp add: list_all_iff)
  show ?thesis
    unfolding confined_def r prod.case rn new
    using w f rl assms(5) by simp
qed

text \<open>
  C3, amended. For every \<open>stride \<ge> 1\<close> and \<open>elems \<ge> 1\<close> with
  \<open>(elems - 1) * stride < 2^32\<close> (no wrap-around of the last position), each of the three
  generators returns having written only to positions in
  \<open>{0, stride, \<dots>, (elems - 1) * stride}\<close>; every cell outside this footprint is
  unchanged; and the chase from position 0 that follows, of any length, reads only
  positions of the footprint.
\<close>

theorem generators_confined:
  assumes "permutes shuffle" and "stride \<noteq> 0" and "elems \<noteq> 0"
    and "unat stride * (unat elems - 1) < 2 ^ 32"
  shows "(case fillDirectIndexes stride elems st of
            None \<Rightarrow> False
          | Some st' \<Rightarrow> confined stride elems st st' p m)
         \<and> confined stride elems st (fillReverseIndexes stride elems st) p m
         \<and> confined stride elems st (fillShuffledIndexes shuffle stride elems seed st) p m"
proof -
  let ?fp = "footprint stride elems"
  have d: "distinct ?fp" by (rule footprint_distinct [OF assms(2,4)])
  have "confined stride elems st (apply_writes (cycle_writes ?fp) st) p m"
    by (rule ring_confined [OF d refl assms(3)])
       (simp_all add: apply_writes_eq cycle_writes_accesses)
  then have D: "case fillDirectIndexes stride elems st of
            None \<Rightarrow> False | Some st' \<Rightarrow> confined stride elems st st' p m"
    by (simp add: fillDirectIndexes_writes [OF assms(2,3,4)])
  have "confined stride elems st (apply_writes (cycle_writes (rev ?fp)) st) p m"
    by (rule ring_confined [of "rev ?fp", OF _ _ assms(3)])
       (simp_all add: d apply_writes_eq cycle_writes_accesses)
  then have R: "confined stride elems st (fillReverseIndexes stride elems st) p m"
    by (simp add: fillReverseIndexes_writes [OF assms(2,3,4)])
  have S: "confined stride elems st (fillShuffledIndexes shuffle stride elems seed st) p m"
    by (rule ring_confined [of "shuffled_positions shuffle stride elems st", OF _ _ assms(3)])
       (simp_all add: shuffled_positions_distinct [OF assms(1) d]
          shuffled_positions_set [OF assms(1)] fillShuffledIndexes_state [OF assms(1)]
          cycle_writes_def shuffled_positions_length [OF assms(1)])
  show ?thesis using D R S by simp
qed

text \<open>An instance: stride 4, three elements, the cell 5 outside the footprint, a chase of 7 steps.\<close>

theorem generators_confined_witness:
  "permutes rotating \<and> (4::u32) \<noteq> 0 \<and> (3::u32) \<noteq> 0
   \<and> unat (4::u32) * (unat (3::u32) - 1) < 2 ^ 32 \<and> 5 \<notin> set (footprint 4 3)
   \<and> (case fillDirectIndexes 4 3 (initial (1::nat) (\<lambda>_. 0)) of
         None \<Rightarrow> False
       | Some st' \<Rightarrow> confined 4 3 (initial (1::nat) (\<lambda>_. 0)) st' 5 7)
   \<and> confined 4 3 (initial (1::nat) (\<lambda>_. 0)) (fillReverseIndexes 4 3 (initial (1::nat) (\<lambda>_. 0))) 5 7
   \<and> confined 4 3 (initial (1::nat) (\<lambda>_. 0))
        (fillShuffledIndexes rotating 4 3 42 (initial (1::nat) (\<lambda>_. 0))) 5 7"
proof -
  have h: "(4::u32) \<noteq> 0" "(3::u32) \<noteq> 0" "unat (4::u32) * (unat (3::u32) - 1) < 2 ^ 32"
    by simp_all
  have out: "5 \<notin> set (footprint 4 3)" by code_simp
  from generators_confined [OF permutes_rotating h, of "initial (1::nat) (\<lambda>_. 0)" 5 7 42]
  show ?thesis using permutes_rotating h out by blast
qed

text \<open>
  C3 as stated, for every \<open>stride \<ge> 1\<close> and \<open>elems \<ge> 1\<close>, fails where the product
  wraps around. With stride \<open>2^31 + 1\<close> and three elements, \<open>stride * (elems - 1)\<close> is
  2 in 32 bits: \<open>fillDirectIndexes\<close> writes \<open>buffer[0] = stride\<close>, finds
  \<open>i = stride > 2\<close> and stops. The chase from 0 then reads position \<open>stride\<close>, which
  the generator has not written, and follows what it finds there; in a buffer filled
  with 5 it reads position 5, which is outside the footprint.
\<close>

theorem generators_confined_counterexample:
  "case fillDirectIndexes (2 ^ 31 + 1) 3 (initial (0::nat) (\<lambda>_. 5)) of
     None \<Rightarrow> False
   | Some st' \<Rightarrow>
       accesses st' = [Write 0]
       \<and> map addr (new_accesses st' (snd (read_loop 3 0 0 st'))) = [0, 2 ^ 31 + 1, 5]
       \<and> 5 \<notin> set (footprint (2 ^ 31 + 1) 3)
       \<and> \<not> confined (2 ^ 31 + 1) 3 (initial (0::nat) (\<lambda>_. 5)) st' 0 3"
proof -
  have "fillDirectIndexes (2 ^ 31 + 1) 3 (initial (0::nat) (\<lambda>_. 5)) =
        Some (array_write 0 (2 ^ 31 + 1) (initial (0::nat) (\<lambda>_. 5)))"
    by (simp add: fillDirectIndexes_def fillDirect_loop.simps)
  then show ?thesis
    unfolding option.case by (simp only: option.case) code_simp
qed

subsection \<open>Batches of the timed reader\<close>

lemma fillShuffledIndexes_fields:
  "gen (fillShuffledIndexes shuffle stride elems seed st) = snd (shuffle (gen st) (iota (unat elems)))"
  "draws (fillShuffledIndexes shuffle stride elems seed st) =
     draws st @ [fst (shuffle (gen st) (iota (unat elems)))]"
  "clock (fillShuffledIndexes shuffle stride elems seed st) = clock st"
  "calls (fillShuffledIndexes shuffle stride elems seed st) = calls st"
  "cerr (fillShuffledIndexes shuffle stride elems seed st) = cerr st"
  "allocated (fillShuffledIndexes shuffle stride elems seed st) = allocated st"
  "arrayLen (fillShuffledIndexes shuffle stride elems seed st) = arrayLen st"
  by (simp_all add: fillShuffledIndexes_eq apply_writes_eq)

lemma batch_unfold:
  assumes "batch < batchesCount"
  shows "timeOfArrayRead_loop shuffle clk stride elems iterationsPerBatch warnupReadsCount
           batchesCount batch diff st =
         (let st1 = fillShuffledIndexes shuffle stride elems 42 st
          in timeOfArrayRead_loop shuffle clk stride elems iterationsPerBatch warnupReadsCount
               batchesCount (batch + 1) (diff + (clk (clock st + 1) - clk (clock st)))
               (st1\<lparr>accesses := accesses st1
                      @ chase_reads (array st1) 0 (unat warnupReadsCount)
                      @ chase_reads (array st1) 0 (unat iterationsPerBatch),
                    clock := clock st + 2\<rparr>))"
  using assms
  by (subst timeOfArrayRead_loop.simps)
     (simp add: read_loop_eq now_def chase_reads_def Let_def fillShuffledIndexes_fields)

lemma engine_Suc: "engine shuffle elems k (snd (shuffle g (iota (unat elems)))) = engine shuffle elems (Suc k) g"
  unfolding engine_def by (simp only: funpow_Suc_right o_apply)

lemma interval_shift: "interval clk (c + 2) b = interval clk c (Suc b)"
  by (simp add: interval_def)

lemma timeOfArrayRead_loop_result:
  "fst (timeOfArrayRead_loop shuffle clk stride elems n w B batch diff st) =
     diff + (\<Sum>b<unat B - unat batch. interval clk (clock st) b)
   \<and> clock (snd (timeOfArrayRead_loop shuffle clk stride elems n w B batch diff st)) =
     clock st + 2 * (unat B - unat batch)
   \<and> gen (snd (timeOfArrayRead_loop shuffle clk stride elems n w B batch diff st)) =
     engine shuffle elems (unat B - unat batch) (gen st)
   \<and> draws (snd (timeOfArrayRead_loop shuffle clk stride elems n w B batch diff st)) =
     draws st @ map (\<lambda>b. fst (shuffle (engine shuffle elems b (gen st)) (iota (unat elems))))
                  [0..<unat B - unat batch]
   \<and> calls (snd (timeOfArrayRead_loop shuffle clk stride elems n w B batch diff st)) = calls st
   \<and> cerr (snd (timeOfArrayRead_loop shuffle clk stride elems n w B batch diff st)) = cerr st
   \<and> allocated (snd (timeOfArrayRead_loop shuffle clk stride elems n w B batch diff st)) = allocated st
   \<and> arrayLen (snd (timeOfArrayRead_loop shuffle clk stride elems n w B batch diff st)) = arrayLen st"
proof (induction "unat B - unat batch" arbitrary: batch diff st)
  case 0
  then have "\<not> batch < B" by (simp add: word_less_nat_alt)
  then have "timeOfArrayRead_loop shuffle clk stride elems n w B batch diff st = (diff, st)"
    by (subst timeOfArrayRead_loop.simps) simp
  then show ?case using 0 by (simp add: engine_def)
next
  case (Suc k)
  then have lt: "batch < B" by (simp add: word_less_nat_alt)
  have k: "k = unat B - unat (batch + 1)"
    using Suc.hyps(2) by (simp add: unat_Suc_less [OF lt])
  have Sk: "unat B - unat batch = Suc k" using Suc.hyps(2) by simp
  have m: "map (\<lambda>b. fst (shuffle (engine shuffle elems b (gen st)) (iota (unat elems)))) [0..<Suc k] =
        fst (shuffle (gen st) (iota (unat elems))) #
        map (\<lambda>b. fst (shuffle (engine shuffle elems b (snd (shuffle (gen st) (iota (unat elems)))))
               (iota (unat elems)))) [0..<k]"
    by (simp add: map_upt_Suc engine_Suc del: upt_Suc) (simp add: engine_def)
  show ?case
    unfolding batch_unfold [OF lt] Let_def Sk
    using Suc.hyps(1) [OF k]
    by (simp add: k [symmetric] fillShuffledIndexes_fields engine_Suc m sum.lessThan_Suc_shift
        interval_shift [symmetric] del: upt_Suc sum.lessThan_Suc)
       (simp add: interval_def)
qed

lemma timeOfArrayRead_loop_batches:
  "snd (timeOfArrayRead_loop shuffle clk stride elems n w B batch diff st) =
     (one_batch shuffle stride elems n w ^^ (unat B - unat batch)) st"
proof (induction "unat B - unat batch" arbitrary: batch diff st)
  case 0
  then have "\<not> batch < B" by (simp add: word_less_nat_alt)
  then have "timeOfArrayRead_loop shuffle clk stride elems n w B batch diff st = (diff, st)"
    by (subst timeOfArrayRead_loop.simps) simp
  then show ?case using 0 by simp
next
  case (Suc k)
  then have lt: "batch < B" by (simp add: word_less_nat_alt)
  have k: "k = unat B - unat (batch + 1)"
    using Suc.hyps(2) by (simp add: unat_Suc_less [OF lt])
  have Sk: "unat B - unat batch = Suc k" using Suc.hyps(2) by simp
  show ?case
    unfolding batch_unfold [OF lt] Let_def Sk funpow_Suc_right o_apply
    using Suc.hyps(1) [OF k]
    by (simp add: k [symmetric] one_batch_def Let_def)
qed

lemma filter_chase_reads: "filter is_Write (chase_reads a i k) = []"
  by (simp add: chase_reads_def filter_empty_conv)



subsection \<open>C2: where the timed phase starts\<close>

text \<open>
  C2, amended. In \<open>timeOfArrayRead\<close>, every batch that runs (\<open>batch < batchesCount\<close>)
  regenerates the pattern, then makes the \<open>warnupReadsCount\<close> chained reads of the
  warm-up from position 0, takes the start time, and makes the \<open>readsCount\<close> chained
  reads of the timed phase from position 0 again: the timed chase does not continue from
  the index at which the warm-up left off.
\<close>

theorem timed_phase_restarts:
  assumes "batch < batchesCount"
  shows "timeOfArrayRead_loop shuffle clk stride elems readsCount warnupReadsCount
           batchesCount batch diff st =
         (let st1 = fillShuffledIndexes shuffle stride elems 42 st
          in timeOfArrayRead_loop shuffle clk stride elems readsCount warnupReadsCount
               batchesCount (batch + 1) (diff + (clk (clock st + 1) - clk (clock st)))
               (st1\<lparr>accesses := accesses st1
                      @ chase_reads (array st1) 0 (unat warnupReadsCount)
                      @ chase_reads (array st1) 0 (unat readsCount),
                    clock := clock st + 2\<rparr>))"
  using assms by (rule batch_unfold)

text \<open>
  An instance: one batch at stride 4 with three elements, one warm-up read and two timed
  reads; the timed phase reads the positions 0 and 4.
\<close>

theorem timed_phase_restarts_witness:
  "(0::u32) < 1 \<and>
   timeOfArrayRead_loop rotating ticking 4 3 2 1 1 0 0 (initial 1 (\<lambda>_. 0)) =
     (let st1 = fillShuffledIndexes rotating 4 3 42 (initial 1 (\<lambda>_. 0))
      in timeOfArrayRead_loop rotating ticking 4 3 2 1 1 (0 + 1)
           (0 + (ticking (clock (initial (1::nat) (\<lambda>_. 0)) + 1)
                 - ticking (clock (initial (1::nat) (\<lambda>_. 0)))))
           (st1\<lparr>accesses := accesses st1
                  @ chase_reads (array st1) 0 (unat (1::u32))
                  @ chase_reads (array st1) 0 (unat (2::u32)),
                clock := clock (initial (1::nat) (\<lambda>_. 0)) + 2\<rparr>))
   \<and> chase_reads (array (fillShuffledIndexes rotating 4 3 42 (initial 1 (\<lambda>_. 0)))) 0 (unat (2::u32))
       = [Read 0, Read 4]"
proof -
  have h: "(0::u32) < 1" by simp
  have r: "chase_reads (array (fillShuffledIndexes rotating 4 3 42 (initial 1 (\<lambda>_. 0)))) 0
             (unat (2::u32)) = [Read 0, Read 4]"
    by code_simp
  show ?thesis by (intro conjI h r timed_phase_restarts [OF h])
qed

text \<open>
  C2 as stated fails on the same run: the pattern links 0 to 4, 4 to 8 and 8 to 0, the
  warm-up reads position 0 and leaves the index 4, and the timed phase then reads the
  positions 0 and 4, where the claim has it read 4 and 8.
\<close>

theorem timed_phase_restarts_counterexample:
  "fst (read_loop 1 0 0 (fillShuffledIndexes rotating 4 3 42 (initial 1 (\<lambda>_. 0)))) = 4
   \<and> (case timeOfArrayRead rotating ticking 4 3 2 1 1 (initial 1 (\<lambda>_. 0)) of
         Inl e \<Rightarrow> False
       | Inr (d, st') \<Rightarrow>
           accesses st' = [Write 4, Write 8, Write 0, Read 0, Read 0, Read 4])"
  by code_simp

subsection \<open>C4: batches and the mean\<close>



subsection \<open>The sweep as a sequence of measured cells\<close>

lemma timeOfArrayRead_measured:
  "timeOfArrayRead shuffle clk stride elems ARRAY_READS_COUNT WARNUP_READS_COUNT BATCHES_COUNT st =
     Inr (batch_mean clk (clock st), measured shuffle clk (stride, elems) st)"
proof -
  have b: "BATCHES_COUNT \<noteq> 0" by (simp add: BATCHES_COUNT_def)
  show ?thesis
    using timeOfArrayRead_loop_result [of shuffle clk stride elems ARRAY_READS_COUNT
        WARNUP_READS_COUNT BATCHES_COUNT 0 0 "st\<lparr>calls := calls st @ [(stride, elems)]\<rparr>"] b
    by (auto simp: measured_def timeOfArrayRead_def batch_mean_def Let_def split: prod.splits)
qed

lemma measured_fields:
  "clock (measured shuffle clk cell st) = clock st + 10"
  "calls (measured shuffle clk cell st) = calls st @ [cell]"
  "cerr (measured shuffle clk cell st) = cerr st"
  "allocated (measured shuffle clk cell st) = allocated st"
  "arrayLen (measured shuffle clk cell st) = arrayLen st"
proof -
  have b: "BATCHES_COUNT \<noteq> 0" "unat BATCHES_COUNT = 5" by (simp_all add: BATCHES_COUNT_def)
  note r = timeOfArrayRead_loop_result [of shuffle clk "fst cell" "snd cell" ARRAY_READS_COUNT
        WARNUP_READS_COUNT BATCHES_COUNT 0 0 "st\<lparr>calls := calls st @ [cell]\<rparr>"]
  show "clock (measured shuffle clk cell st) = clock st + 10"
    using r b by (auto simp: measured_def timeOfArrayRead_def Let_def split: prod.splits)
  show "calls (measured shuffle clk cell st) = calls st @ [cell]"
    using r b by (auto simp: measured_def timeOfArrayRead_def Let_def split: prod.splits)
  show "cerr (measured shuffle clk cell st) = cerr st"
    using r b by (auto simp: measured_def timeOfArrayRead_def Let_def split: prod.splits)
  show "allocated (measured shuffle clk cell st) = allocated st"
    using r b by (auto simp: measured_def timeOfArrayRead_def Let_def split: prod.splits)
  show "arrayLen (measured shuffle clk cell st) = arrayLen st"
    using r b by (auto simp: measured_def timeOfArrayRead_def Let_def split: prod.splits)
qed

lemma sdiv_nonneg: "0 \<le> (a::int) \<Longrightarrow> 0 < b \<Longrightarrow> 0 \<le> a sdiv b"
  by (simp add: signed_divide_int_def sgn_if pos_imp_zdiv_nonneg_iff)

lemma batch_mean_nonneg: "steady clk \<Longrightarrow> 0 \<le> batch_mean clk c"
proof -
  assume s: "steady clk"
  have "0 \<le> interval clk c b" for b
    using s by (simp add: interval_def steady_def)
  then have "0 \<le> (\<Sum>b<unat BATCHES_COUNT. interval clk c b)" by (intro sum_nonneg) simp
  then show ?thesis
    unfolding batch_mean_def by (rule sdiv_nonneg) (simp add: BATCHES_COUNT_def)
qed

lemma shuffled_chase_inside:
  assumes "permutes shuffle" and "distinct (footprint stride elems)" and "elems \<noteq> 0"
  shows "(array (fillShuffledIndexes shuffle stride elems seed st) ^^ j) 0
           \<in> set (footprint stride elems)"
proof -
  let ?ps = "shuffled_positions shuffle stride elems st"
  have len: "length ?ps = unat elems" by (rule shuffled_positions_length [OF assms(1)])
  have a: "array (fillShuffledIndexes shuffle stride elems seed st) =
           writes_to (cycle_writes ?ps) (array st)"
    by (simp add: fillShuffledIndexes_state [OF assms(1)] cycle_writes_def len)
  have "0 \<in> set ?ps"
    using zero_in_footprint [OF assms(3)] shuffled_positions_set [OF assms(1)] by simp
  then have "(writes_to (cycle_writes ?ps) (array st) ^^ j) 0 \<in> set ?ps"
    by (rule cycle_closed [OF shuffled_positions_distinct [OF assms(1,2)]])
  then show ?thesis
    using shuffled_positions_set [OF assms(1), of stride elems st] by (simp add: a)
qed

lemma batch_accesses:
  assumes "permutes shuffle" and "distinct (footprint stride elems)" and "elems \<noteq> 0"
  shows "\<exists>xs. accesses (snd (timeOfArrayRead_loop shuffle clk stride elems n w B batch diff st)) =
              accesses st @ xs
            \<and> (\<forall>x\<in>set xs. addr x \<in> set (footprint stride elems))"
proof (induction "unat B - unat batch" arbitrary: batch diff st)
  case 0
  then have "\<not> batch < B" by (simp add: word_less_nat_alt)
  then have "timeOfArrayRead_loop shuffle clk stride elems n w B batch diff st = (diff, st)"
    by (subst timeOfArrayRead_loop.simps) simp
  then show ?case by simp
next
  case (Suc k)
  then have lt: "batch < B" by (simp add: word_less_nat_alt)
  have k: "k = unat B - unat (batch + 1)"
    using Suc.hyps(2) by (simp add: unat_Suc_less [OF lt])
  define st1 where "st1 = fillShuffledIndexes shuffle stride elems 42 st"
  define ys where "ys = map Write (shuffled_positions shuffle stride elems st)
      @ chase_reads (array st1) 0 (unat w) @ chase_reads (array st1) 0 (unat n)"
  define st5 where "st5 = st1\<lparr>accesses := accesses st @ ys, clock := clock st + 2\<rparr>"
  have acc1: "accesses st1 = accesses st @ map Write (shuffled_positions shuffle stride elems st)"
    by (simp add: st1_def fillShuffledIndexes_state [OF assms(1)])
  have unf: "timeOfArrayRead_loop shuffle clk stride elems n w B batch diff st =
        timeOfArrayRead_loop shuffle clk stride elems n w B (batch + 1)
          (diff + (clk (clock st + 1) - clk (clock st))) st5"
    unfolding batch_unfold [OF lt] Let_def st5_def ys_def st1_def [symmetric] acc1 by simp
  have inside: "\<forall>x\<in>set ys. addr x \<in> set (footprint stride elems)"
    using shuffled_chase_inside [OF assms, where seed = 42 and st = st]
      shuffled_positions_set [OF assms(1), of stride elems st]
    by (auto simp: ys_def chase_reads_def st1_def)
  from Suc.hyps(1) [OF k, of "diff + (clk (clock st + 1) - clk (clock st))" st5]
  obtain xs where xs: "accesses (snd (timeOfArrayRead_loop shuffle clk stride elems n w B (batch + 1)
          (diff + (clk (clock st + 1) - clk (clock st))) st5)) = accesses st5 @ xs"
      "\<forall>x\<in>set xs. addr x \<in> set (footprint stride elems)"
    by blast
  have "accesses st5 = accesses st @ ys" by (simp add: st5_def)
  then have "accesses (snd (timeOfArrayRead_loop shuffle clk stride elems n w B batch diff st)) =
        accesses st @ (ys @ xs)"
    using xs(1) unf by simp
  moreover have "\<forall>x\<in>set (ys @ xs). addr x \<in> set (footprint stride elems)"
    using inside xs(2) by auto
  ultimately show ?case by blast
qed

lemma measured_accesses:
  assumes "permutes shuffle" and "distinct (footprint stride elems)" and "elems \<noteq> 0"
  shows "\<exists>xs. accesses (measured shuffle clk (stride, elems) st) = accesses st @ xs
            \<and> (\<forall>x\<in>set xs. addr x \<in> set (footprint stride elems))"
proof -
  have b: "BATCHES_COUNT \<noteq> 0" by (simp add: BATCHES_COUNT_def)
  show ?thesis
    using batch_accesses [OF assms, of clk ARRAY_READS_COUNT WARNUP_READS_COUNT BATCHES_COUNT 0 0
        "st\<lparr>calls := calls st @ [(stride, elems)]\<rparr>"] b
    by (auto simp: measured_def timeOfArrayRead_def Let_def split: prod.splits)
qed

lemma vector_set_ok:
  assumes "grid_ok A M g" and "r < A" and "c < M"
  shows "vector_set g r c x = Inr (g[r := (g ! r)[c := x]])"
    and "grid_ok A M (g[r := (g ! r)[c := x]])"
    and "\<And>r' c'. r' < A \<Longrightarrow> c' < M \<Longrightarrow>
           g[r := (g ! r)[c := x]] ! r' ! c' = (if r' = r \<and> c' = c then x else g ! r' ! c')"
  using assms by (auto simp: vector_set_def grid_ok_def nth_list_update)

lemma fold_measured_clock:
  "clock (fold (measured shuffle clk) cs st) = clock st + 10 * length cs"
  by (induction cs arbitrary: st) (simp_all add: measured_fields)

lemma fold_measured_calls:
  "calls (fold (measured shuffle clk) cs st) = calls st @ cs"
  by (induction cs arbitrary: st) (simp_all add: measured_fields)

lemma fold_measured_fields:
  "cerr (fold (measured shuffle clk) cs st) = cerr st"
  "allocated (fold (measured shuffle clk) cs st) = allocated st"
  "arrayLen (fold (measured shuffle clk) cs st) = arrayLen st"
  by (induction cs arbitrary: st) (simp_all add: measured_fields)

lemma elems_loop_row:
  assumes "grid_ok A M g" and "A = unat maxAssoc" and "unat stridePow < M"
  shows "\<exists>g'. elems_loop shuffle clk maxAssoc stride stridePow elems g jv st =
            Inr (g', jv, fold (measured shuffle clk)
                           (map (\<lambda>e. (stride, of_nat e)) [unat elems..<A]) st)
          \<and> grid_ok A M g'
          \<and> (\<forall>r<A. \<forall>c<M. g' ! r ! c =
               (if c = unat stridePow \<and> unat elems \<le> r
                then batch_mean clk (clock st + 10 * (r - unat elems)) else g ! r ! c))"
  using assms(1)
proof (induction "A - unat elems" arbitrary: elems g st)
  case 0
  then have "\<not> elems < maxAssoc" using assms(2) by (simp add: word_less_nat_alt)
  then have "elems_loop shuffle clk maxAssoc stride stridePow elems g jv st = Inr (g, jv, st)"
    by (subst elems_loop.simps) simp
  then show ?case using 0 by auto
next
  case (Suc d)
  let ?e = "unat elems" and ?p = "unat stridePow"
  have lt: "elems < maxAssoc" using Suc.hyps(2) assms(2) by (simp add: word_less_nat_alt)
  have e: "?e < A" using Suc.hyps(2) by simp
  have e1: "unat (elems + 1) = Suc ?e" by (rule unat_Suc_less [OF lt])
  have d: "d = A - unat (elems + 1)" using Suc.hyps(2) e1 by simp
  define g1 where "g1 = g[?e := (g ! ?e)[?p := batch_mean clk (clock st)]]"
  define st1 where "st1 = measured shuffle clk (stride, elems) st"
  note vs = vector_set_ok [OF Suc.prems e assms(3), where x = "batch_mean clk (clock st)",
      folded g1_def]
  from Suc.hyps(1) [OF d vs(2), of st1]
  obtain g' where g':
    "elems_loop shuffle clk maxAssoc stride stridePow (elems + 1) g1 jv st1 =
       Inr (g', jv, fold (measured shuffle clk)
                      (map (\<lambda>e. (stride, of_nat e)) [Suc ?e..<A]) st1)"
    "grid_ok A M g'"
    "\<forall>r<A. \<forall>c<M. g' ! r ! c =
       (if c = ?p \<and> Suc ?e \<le> r
        then batch_mean clk (clock st1 + 10 * (r - Suc ?e)) else g1 ! r ! c)"
    unfolding e1 by blast
  have unf: "elems_loop shuffle clk maxAssoc stride stridePow elems g jv st =
             elems_loop shuffle clk maxAssoc stride stridePow (elems + 1) g1 jv st1"
    using lt
    by (subst elems_loop.simps)
       (simp add: timeOfArrayRead_measured vs(1) st1_def)
  have upt: "[?e..<A] = ?e # [Suc ?e..<A]" using e by (simp add: upt_conv_Cons)
  have res: "fold (measured shuffle clk) (map (\<lambda>e. (stride, of_nat e)) [Suc ?e..<A]) st1 =
             fold (measured shuffle clk) (map (\<lambda>e. (stride, of_nat e)) [?e..<A]) st"
    by (simp add: upt st1_def)
  have c1: "clock st1 = clock st + 10" by (simp add: st1_def measured_fields)
  have gp: "g' ! r ! c =
       (if c = ?p \<and> Suc ?e \<le> r
        then batch_mean clk (clock st1 + 10 * (r - Suc ?e)) else g1 ! r ! c)"
    if "r < A" "c < M" for r c
    using g'(3) that by blast
  have pt: "g' ! r ! c =
       (if c = ?p \<and> ?e \<le> r then batch_mean clk (clock st + 10 * (r - ?e)) else g ! r ! c)"
    if "r < A" "c < M" for r c
  proof (cases "c = ?p \<and> Suc ?e \<le> r")
    case True
    then have "r - ?e = Suc (r - Suc ?e)" by arith
    then have "clock st1 + 10 * (r - Suc ?e) = clock st + 10 * (r - ?e)"
      by (simp add: c1)
    then show ?thesis using gp [OF that] True by auto
  next
    case False
    then have "g' ! r ! c = g1 ! r ! c" using gp [OF that] by auto
    also have "\<dots> = (if r = ?e \<and> c = ?p then batch_mean clk (clock st) else g ! r ! c)"
      by (rule vs(3) [OF that])
    finally show ?thesis using False by auto
  qed
  show ?case
    unfolding unf g'(1) res using g'(2) pt by blast
qed

lemma cells_Suc:
  "cells s A (Suc k) = map (\<lambda>e. (s, of_nat e)) [1..<A] @ cells (s * 2) A k"
proof -
  have "map (\<lambda>j. map (\<lambda>e. (s * 2 ^ j, of_nat e :: u32)) [1..<A]) [0..<Suc k] =
        map (\<lambda>e. (s, of_nat e)) [1..<A] #
        map (\<lambda>j. map (\<lambda>e. (s * 2 * 2 ^ j, of_nat e)) [1..<A]) [0..<k]"
    by (simp add: map_upt_Suc mult.assoc del: upt_Suc)
  then show ?thesis by (simp add: cells_def del: upt_Suc)
qed

lemma stride_loop_sweep:
  assumes "A = unat maxAssoc" and "M = unat maxStride"
  shows "grid_ok A M g \<Longrightarrow> s \<noteq> 0 \<Longrightarrow> 2 ^ unat stridePow \<le> unat s \<Longrightarrow>
         k = doublings (unat s) M \<Longrightarrow>
         \<exists>g'. stride_loop shuffle clk maxAssoc maxStride s stridePow g jv st =
            Some (Inr (stridePow + of_nat k, g', jv,
                       fold (measured shuffle clk) (cells s A k) st))
          \<and> grid_ok A M g'
          \<and> (\<forall>r<A. \<forall>c<M. g' ! r ! c =
               (if unat stridePow \<le> c \<and> c < unat stridePow + k \<and> 1 \<le> r
                then batch_mean clk (clock st + 10 * ((c - unat stridePow) * (A - 1) + (r - 1)))
                else g ! r ! c))"
proof (induction k arbitrary: s stridePow g st)
  case 0
  have "0 < unat s" using 0(2) by (simp add: unat_gt_0)
  then have "\<not> unat s * 4 \<le> unat maxStride"
    using 0(4) assms(2) by (subst (asm) doublings.simps) (simp split: if_splits)
  then have "stride_loop shuffle clk maxAssoc maxStride s stridePow g jv st =
             Some (Inr (stridePow, g, jv, st))"
    by (subst stride_loop.simps) simp
  then show ?case using 0(1) by (simp add: cells_def)
next
  case (Suc k)
  let ?p = "unat stridePow"
  have s0: "0 < unat s" using Suc.prems(2) by (simp add: unat_gt_0)
  have dbl: "4 * unat s \<le> M" "k = doublings (2 * unat s) M"
    using Suc.prems(4) s0 by (subst (asm) doublings.simps; simp split: if_splits)+
  have M: "M < 2 ^ 32" using unat_u32_bound [of maxStride] assms(2) by simp
  have "unat s * unat (2::u32) < 2 ^ LENGTH(32)" using dbl(1) M by simp
  then have s2: "unat (s * 2) = 2 * unat s"
    by (simp only: unat_mult_lem [THEN iffD1]) simp
  have s2nz: "s * 2 \<noteq> 0" using s2 s0 by (metis mult_is_0 unat_0 zero_neq_numeral less_numeral_extra(3))
  have "?p < 2 ^ ?p" by (rule less_exp)
  with Suc.prems(3) dbl(1) have p: "?p < M" by linarith
  then have "stridePow < maxStride" by (simp add: word_less_nat_alt assms(2))
  then have p1: "unat (stridePow + 1) = Suc ?p" by (rule unat_Suc_less)
  have pw: "2 ^ unat (stridePow + 1) \<le> unat (s * 2)"
    using Suc.prems(3) by (simp add: p1 s2)
  obtain g1 where g1:
    "elems_loop shuffle clk maxAssoc s stridePow 1 g jv st =
       Inr (g1, jv, fold (measured shuffle clk) (map (\<lambda>e. (s, of_nat e)) [1..<A]) st)"
    "grid_ok A M g1"
    "\<forall>r<A. \<forall>c<M. g1 ! r ! c =
       (if c = ?p \<and> 1 \<le> r then batch_mean clk (clock st + 10 * (r - 1)) else g ! r ! c)"
    using elems_loop_row [OF Suc.prems(1) assms(1) p, of shuffle clk s 1 jv st] by auto
  define st1 where "st1 = fold (measured shuffle clk) (map (\<lambda>e. (s, of_nat e)) [1..<A]) st"
  have c1: "clock st1 = clock st + 10 * (A - 1)"
    by (simp add: st1_def fold_measured_clock)
  from Suc.IH [OF g1(2) s2nz pw, of st1] dbl(2) s2
  obtain g' where g':
    "stride_loop shuffle clk maxAssoc maxStride (s * 2) (stridePow + 1) g1 jv st1 =
       Some (Inr (stridePow + 1 + of_nat k, g', jv,
                  fold (measured shuffle clk) (cells (s * 2) A k) st1))"
    "grid_ok A M g'"
    "\<forall>r<A. \<forall>c<M. g' ! r ! c =
       (if Suc ?p \<le> c \<and> c < Suc ?p + k \<and> 1 \<le> r
        then batch_mean clk (clock st1 + 10 * ((c - Suc ?p) * (A - 1) + (r - 1)))
        else g1 ! r ! c)"
    unfolding p1 by auto
  have unf: "stride_loop shuffle clk maxAssoc maxStride s stridePow g jv st =
             stride_loop shuffle clk maxAssoc maxStride (s * 2) (stridePow + 1) g1 jv st1"
    using dbl(1) assms(2)
    by (subst stride_loop.simps) (simp add: g1(1) st1_def mult.commute)
  have res: "fold (measured shuffle clk) (cells (s * 2) A k) st1 =
             fold (measured shuffle clk) (cells s A (Suc k)) st"
    by (simp add: cells_Suc st1_def)
  have cnt: "stridePow + 1 + of_nat k = stridePow + of_nat (Suc k)" by simp
  have g1p: "g1 ! r ! c =
       (if c = ?p \<and> 1 \<le> r then batch_mean clk (clock st + 10 * (r - 1)) else g ! r ! c)"
    if "r < A" "c < M" for r c
    using g1(3) that by blast
  have gp: "g' ! r ! c =
       (if Suc ?p \<le> c \<and> c < Suc ?p + k \<and> 1 \<le> r
        then batch_mean clk (clock st1 + 10 * ((c - Suc ?p) * (A - 1) + (r - 1)))
        else g1 ! r ! c)"
    if "r < A" "c < M" for r c
    using g'(3) that by blast
  have pt: "g' ! r ! c =
       (if ?p \<le> c \<and> c < ?p + Suc k \<and> 1 \<le> r
        then batch_mean clk (clock st + 10 * ((c - ?p) * (A - 1) + (r - 1)))
        else g ! r ! c)"
    if "r < A" "c < M" for r c
  proof (cases "Suc ?p \<le> c \<and> c < Suc ?p + k \<and> 1 \<le> r")
    case True
    then have "c - ?p = Suc (c - Suc ?p)" by arith
    then have "clock st1 + 10 * ((c - Suc ?p) * (A - 1) + (r - 1)) =
               clock st + 10 * ((c - ?p) * (A - 1) + (r - 1))"
      by (simp add: c1 algebra_simps)
    then show ?thesis using gp [OF that] True by auto
  next
    case False
    then have "g' ! r ! c = g1 ! r ! c" using gp [OF that] by auto
    then show ?thesis using g1p [OF that] False by auto
  qed
  show ?case
    unfolding unf g'(1) res cnt using g'(2) pt by blast
qed

lemma doublings_iff: "0 < s \<Longrightarrow> j < doublings s M \<longleftrightarrow> 4 * s * 2 ^ j \<le> M"
proof (induction j arbitrary: s)
  case 0
  then show ?case by (subst doublings.simps) simp
next
  case (Suc j)
  have "Suc j < doublings s M \<longleftrightarrow> 4 * s \<le> M \<and> j < doublings (2 * s) M"
    using Suc.prems by (subst doublings.simps) simp
  also have "\<dots> \<longleftrightarrow> 4 * s \<le> M \<and> 4 * (2 * s) * 2 ^ j \<le> M"
    using Suc.IH [of "2 * s"] Suc.prems by simp
  also have "\<dots> \<longleftrightarrow> 4 * s * 2 ^ Suc j \<le> M"
  proof -
    have e: "4 * (2 * s) * 2 ^ j = 4 * s * 2 ^ Suc j" by simp
    have "4 * s * 1 \<le> 4 * s * 2 ^ Suc j" by (intro mult_le_mono2) simp
    then have le: "4 * s \<le> 4 * s * 2 ^ Suc j" by (simp only: mult_1_right)
    show ?thesis by (metis e le le_trans)
  qed
  finally show ?case .
qed

lemma unat_stride_pow:
  assumes "unat (s::u32) * 2 ^ j < 2 ^ 32"
  shows "unat (s * 2 ^ j) = unat s * 2 ^ j"
proof -
  have "s * 2 ^ j = of_nat (unat s * 2 ^ j)" by simp
  then show ?thesis using assms by (simp only: unat_of_nat_u32)
qed

lemma unat_of_nat_below: "e < unat (w::u32) \<Longrightarrow> unat (of_nat e :: u32) = e"
  using unat_u32_bound [of w] by (intro unat_of_nat_u32) simp

lemma sweep_result:
  assumes "4 \<le> minStride"
  shows "\<exists>g. capacityAndAssociativity shuffle clk maxMemory maxAssoc maxStride minStride st =
            Some (Inr (of_nat (doublings (unat (minStride div 4)) (unat maxStride)), g,
                       replicate (unat maxAssoc) (replicate (unat maxStride) False),
                       fold (measured shuffle clk)
                         (cells (minStride div 4) (unat maxAssoc)
                            (doublings (unat (minStride div 4)) (unat maxStride))) st))
          \<and> grid_ok (unat maxAssoc) (unat maxStride) g
          \<and> (\<forall>r<unat maxAssoc. \<forall>c<unat maxStride. g ! r ! c =
               (if c < doublings (unat (minStride div 4)) (unat maxStride) \<and> 1 \<le> r
                then batch_mean clk (clock st + 10 * (c * (unat maxAssoc - 1) + (r - 1)))
                else 0))"
proof -
  let ?s = "minStride div 4" and ?A = "unat maxAssoc" and ?M = "unat maxStride"
  let ?g = "replicate ?A (replicate ?M (0::int))"
  have "4 \<le> unat minStride" using assms by (simp add: word_le_nat_alt)
  then have "0 < unat ?s" by (simp add: unat_div)
  then have s: "?s \<noteq> 0" by auto
  have g: "grid_ok ?A ?M ?g" by (simp add: grid_ok_def)
  have p: "2 ^ unat (0::u32) \<le> unat ?s" using \<open>0 < unat ?s\<close> by simp
  let ?P = "doublings (unat ?s) ?M"
  from stride_loop_sweep [OF refl refl g s p refl, of shuffle clk
      "replicate ?A (replicate ?M False)" st]
  obtain g' where g':
    "stride_loop shuffle clk maxAssoc maxStride ?s 0 ?g (replicate ?A (replicate ?M False)) st =
       Some (Inr (0 + of_nat ?P, g', replicate ?A (replicate ?M False),
                  fold (measured shuffle clk) (cells ?s ?A ?P) st))"
    "grid_ok ?A ?M g'"
    "\<forall>r<?A. \<forall>c<?M. g' ! r ! c =
       (if unat (0::u32) \<le> c \<and> c < unat (0::u32) + ?P \<and> 1 \<le> r
        then batch_mean clk (clock st + 10 * ((c - unat (0::u32)) * (?A - 1) + (r - 1)))
        else ?g ! r ! c)"
    by blast
  have pt: "g' ! r ! c =
       (if c < ?P \<and> 1 \<le> r then batch_mean clk (clock st + 10 * (c * (?A - 1) + (r - 1)))
        else 0)" if "r < ?A" "c < ?M" for r c
  proof -
    have "g' ! r ! c =
       (if unat (0::u32) \<le> c \<and> c < unat (0::u32) + ?P \<and> 1 \<le> r
        then batch_mean clk (clock st + 10 * ((c - unat (0::u32)) * (?A - 1) + (r - 1)))
        else ?g ! r ! c)"
      using g'(3) that by blast
    moreover have "?g ! r ! c = 0" using that by simp
    ultimately show ?thesis by (simp only: unat_0 le0 add_0 diff_zero simp_thms)
  qed
  have "capacityAndAssociativity shuffle clk maxMemory maxAssoc maxStride minStride st =
        Some (Inr (of_nat ?P, g', replicate ?A (replicate ?M False),
                   fold (measured shuffle clk) (cells ?s ?A ?P) st))"
    using g'(1) by (simp add: capacityAndAssociativity_def Let_def)
  then show ?thesis using g'(2) pt by blast
qed

subsection \<open>The cells of the sweep\<close>

lemma cells_product:
  "cells s A k = map (\<lambda>(j, e). (s * 2 ^ j, of_nat e)) (List.product [0..<k] [1..<A])"
  by (simp add: cells_def product_concat_map map_concat o_def)

lemma cells_in:
  "cell \<in> set (cells s A k) \<Longrightarrow> \<exists>j<k. \<exists>e. 1 \<le> e \<and> e < A \<and> cell = (s * 2 ^ j, of_nat e)"
  by (fastforce simp: cells_def)

lemma pow2_inj: "(a::nat) * 2 ^ i = a * 2 ^ j \<Longrightarrow> 0 < a \<Longrightarrow> i = j"
  by simp

lemma cells_distinct:
  assumes "s \<noteq> 0" and "A \<le> 2 ^ 32" and "\<forall>j<k. unat s * 2 ^ j < 2 ^ 32"
  shows "distinct (cells s A k)"
proof -
  have s: "0 < unat s" using assms(1) by (simp add: unat_gt_0)
  have "inj_on (\<lambda>(j, e). (s * 2 ^ j, of_nat e :: u32)) (set (List.product [0..<k] [1..<A]))"
  proof (rule inj_onI, clarify)
    fix j e j' e'
    assume m: "(j, e) \<in> set (List.product [0..<k] [1..<A])"
        "(j', e') \<in> set (List.product [0..<k] [1..<A])"
      and eq: "s * 2 ^ j = s * 2 ^ j'" "(of_nat e :: u32) = of_nat e'"
    from m have b: "j < k" "j' < k" "e < 2 ^ 32" "e' < 2 ^ 32" using assms(2) by auto
    have "unat (s * 2 ^ j) = unat (s * 2 ^ j')" using eq(1) by simp
    then have "unat s * 2 ^ j = unat s * 2 ^ j'"
      using b(1,2) assms(3) by (simp add: unat_stride_pow)
    then have "j = j'" using s by simp
    moreover have "unat (of_nat e :: u32) = unat (of_nat e' :: u32)" using eq(2) by simp
    then have "e = e'" using b(3,4) by (simp add: unat_of_nat_u32)
    ultimately show "j = j' \<and> e = e'" by simp
  qed
  then show ?thesis
    by (simp add: cells_product distinct_map distinct_product)
qed

lemma doublings_bound:
  assumes "0 < s" and "M < 2 ^ 32" and "j < doublings s M"
  shows "s * 2 ^ j \<le> M div 4"
proof -
  have "4 * s * 2 ^ j \<le> M" using doublings_iff [OF assms(1)] assms(3) by blast
  then show ?thesis by (simp add: mult.assoc)
qed

lemma fold_measured_accesses:
  assumes "permutes shuffle"
    and "\<forall>cell\<in>set cs. snd cell \<noteq> 0 \<and> distinct (footprint (fst cell) (snd cell))
           \<and> (\<forall>x\<in>set (footprint (fst cell) (snd cell)). unat x < L)"
  shows "\<exists>xs. accesses (fold (measured shuffle clk) cs st) = accesses st @ xs
            \<and> (\<forall>x\<in>set xs. unat (addr x) < L)"
  using assms(2)
proof (induction cs arbitrary: st)
  case Nil
  then show ?case by simp
next
  case (Cons cell cs)
  then have c: "snd cell \<noteq> 0" "distinct (footprint (fst cell) (snd cell))"
      "\<forall>x\<in>set (footprint (fst cell) (snd cell)). unat x < L"
    by simp_all
  from measured_accesses [OF assms(1) c(2) c(1), of clk st]
  obtain ys where ys: "accesses (measured shuffle clk cell st) = accesses st @ ys"
      "\<forall>x\<in>set ys. addr x \<in> set (footprint (fst cell) (snd cell))"
    by auto
  from Cons.IH [of "measured shuffle clk cell st"] Cons.prems
  obtain xs where xs:
      "accesses (fold (measured shuffle clk) cs (measured shuffle clk cell st)) =
         accesses (measured shuffle clk cell st) @ xs"
      "\<forall>x\<in>set xs. unat (addr x) < L"
    by auto
  have "accesses (fold (measured shuffle clk) (cell # cs) st) = accesses st @ (ys @ xs)"
    using ys(1) xs(1) by simp
  moreover have "\<forall>x\<in>set (ys @ xs). unat (addr x) < L"
    using ys(2) xs(2) c(3) by auto
  ultimately show ?case by blast
qed

lemma cells_in_bounds:
  assumes "s \<noteq> 0" and "M < 2 ^ 32" and "A \<le> 2 ^ 32" and "k \<le> doublings (unat s) M"
    and "(A - 2) * (M div 4) < L" and "L \<le> 2 ^ 32"
    and "cell \<in> set (cells s A k)"
  shows "snd cell \<noteq> 0 \<and> distinct (footprint (fst cell) (snd cell))
         \<and> (\<forall>x\<in>set (footprint (fst cell) (snd cell)). unat x < L)"
proof -
  have s: "0 < unat s" using assms(1) by (simp add: unat_gt_0)
  from assms(7) obtain j e where je: "j < k" "1 \<le> e" "e < A" "cell = (s * 2 ^ j, of_nat e)"
    using cells_in by blast
  have sj: "unat s * 2 ^ j \<le> M div 4"
    using doublings_bound [OF s assms(2)] je(1) assms(4) by simp
  then have "unat s * 2 ^ j < 2 ^ 32" using assms(2) by simp
  then have us: "unat (s * 2 ^ j) = unat s * 2 ^ j" by (rule unat_stride_pow)
  have "e < 2 ^ 32" using je(3) assms(3) by simp
  then have ue: "unat (of_nat e :: u32) = e" by (rule unat_of_nat_u32)
  have nz: "(of_nat e :: u32) \<noteq> 0" using ue je(2) by auto
  have snz: "s * 2 ^ j \<noteq> 0" using us s by auto
  have "e - 1 \<le> A - 2" using je(2,3) by simp
  then have "(e - 1) * (unat s * 2 ^ j) \<le> (A - 2) * (M div 4)"
    using sj by (rule mult_le_mono)
  then have prod: "unat (s * 2 ^ j) * (unat (of_nat e :: u32) - 1) < L"
    using assms(5) by (simp add: us ue mult.commute)
  then have fit: "unat (s * 2 ^ j) * (unat (of_nat e :: u32) - 1) < 2 ^ 32"
    using assms(6) by simp
  have d: "distinct (footprint (s * 2 ^ j) (of_nat e))"
    by (rule footprint_distinct [OF snz fit])
  have "unat x < L" if "x \<in> set (footprint (s * 2 ^ j) (of_nat e))" for x
  proof -
    from that obtain i where i: "i < e" "x = of_nat i * (s * 2 ^ j)"
      by (auto simp: footprint_def iota_def ue)
    have ux: "unat x = i * unat (s * 2 ^ j)"
      unfolding i(2) using i(1) by (intro unat_pos [OF fit]) (simp add: ue)
    have "i \<le> e - 1" using i(1) by simp
    then have "i * unat (s * 2 ^ j) \<le> (e - 1) * unat (s * 2 ^ j)"
      by (rule mult_le_mono1)
    moreover have "(e - 1) * unat (s * 2 ^ j) < L"
      using prod by (simp only: ue mult.commute)
    ultimately have "i * unat (s * 2 ^ j) < L" by (rule le_less_trans)
    then show ?thesis by (simp only: ux)
  qed
  then show ?thesis using nz d by (simp add: je(4))
qed

lemma sweep_strides:
  assumes "4 \<le> minStride"
  shows "(minStride div 4 :: u32) \<noteq> 0"
    and "j < doublings (unat (minStride div 4)) (unat maxStride) \<longleftrightarrow>
           unat (minStride div 4) * 2 ^ j * 4 \<le> unat maxStride"
    and "\<forall>j<doublings (unat (minStride div 4)) (unat (maxStride::u32)).
           unat (minStride div 4) * 2 ^ j < 2 ^ 32"
proof -
  have "4 \<le> unat minStride" using assms by (simp add: word_le_nat_alt)
  then have s: "0 < unat (minStride div 4)" by (simp add: unat_div)
  then show "(minStride div 4 :: u32) \<noteq> 0" by auto
  show "j < doublings (unat (minStride div 4)) (unat maxStride) \<longleftrightarrow>
           unat (minStride div 4) * 2 ^ j * 4 \<le> unat maxStride"
    using doublings_iff [OF s, of j "unat maxStride"] by (simp add: mult.commute mult.left_commute)
  show "\<forall>j<doublings (unat (minStride div 4)) (unat maxStride).
           unat (minStride div 4) * 2 ^ j < 2 ^ 32"
  proof (intro allI impI)
    fix j assume "j < doublings (unat (minStride div 4)) (unat maxStride)"
    then have "unat (minStride div 4) * 2 ^ j \<le> unat maxStride div 4"
      using doublings_bound [OF s unat_u32_bound] by blast
    then show "unat (minStride div 4) * 2 ^ j < 2 ^ 32"
      using unat_u32_bound [of maxStride] by simp
  qed
qed

subsection \<open>C6: the sweep measures every cell once\<close>

text \<open>
  C6, amended. Let \<open>minStride\<close> be at least the element size, 4 bytes. Then the sweep
  returns, and with \<open>s0 = minStride / 4\<close> and \<open>P\<close> the number of strides
  \<open>s0 * 2^j\<close> with \<open>s0 * 2^j * 4 \<le> maxStride\<close>, it has invoked the Timed Reader on the
  cells (stride, elems) of the list \<open>cells s0 maxAssoc P\<close>, in this order and on nothing
  else: for each of the strides \<open>s0, 2 s0, \<dots>, s0 * 2^(P-1)\<close> in turn the sizes
  \<open>elems = 1, \<dots>, maxAssoc - 1\<close>; no cell occurs twice in the list. The grid keeps
  its \<open>maxAssoc\<close> rows of \<open>maxStride\<close> entries; the entry of row \<open>elems\<close> and column
  \<open>c < P\<close> holds the duration returned by the call for that cell (call number
  \<open>c * (maxAssoc - 1) + elems - 1\<close> of the sweep, each call taking ten readings of the
  clock), every other entry is still the initial zero; with a clock that never runs
  backwards, every entry is non-negative.
\<close>

theorem sweep_cells:
  assumes "4 \<le> minStride"
  shows "let s0 = minStride div 4; A = unat maxAssoc; M = unat maxStride;
             P = doublings (unat s0) M
         in (j < P \<longleftrightarrow> unat s0 * 2 ^ j * 4 \<le> M)
          \<and> distinct (cells s0 A P)
          \<and> (case capacityAndAssociativity shuffle clk maxMemory maxAssoc maxStride minStride st of
               Some (Inr (stridePow, times_v, jumps_v, st')) \<Rightarrow>
                 stridePow = of_nat P
                 \<and> calls st' = calls st @ cells s0 A P
                 \<and> grid_ok A M times_v
                 \<and> (\<forall>r<A. \<forall>c<M. times_v ! r ! c =
                      (if c < P \<and> 1 \<le> r
                       then batch_mean clk (clock st + 10 * (c * (A - 1) + (r - 1))) else 0))
                 \<and> (steady clk \<longrightarrow> (\<forall>r<A. \<forall>c<M. 0 \<le> times_v ! r ! c))
             | _ \<Rightarrow> False)"
proof -
  let ?s = "minStride div 4" and ?A = "unat maxAssoc" and ?M = "unat maxStride"
  let ?P = "doublings (unat ?s) ?M"
  note st1 = sweep_strides(1) [OF assms]
  note st2 = sweep_strides(2) [OF assms, of j maxStride]
  note st3 = sweep_strides(3) [OF assms, of maxStride]
  have A: "?A \<le> 2 ^ 32" using unat_u32_bound [of maxAssoc] by simp
  have d: "distinct (cells ?s ?A ?P)" by (rule cells_distinct [OF st1 A st3])
  from sweep_result [OF assms, of shuffle clk maxMemory maxAssoc maxStride st]
  obtain g where g:
    "capacityAndAssociativity shuffle clk maxMemory maxAssoc maxStride minStride st =
       Some (Inr (of_nat ?P, g, replicate ?A (replicate ?M False),
                  fold (measured shuffle clk) (cells ?s ?A ?P) st))"
    "grid_ok ?A ?M g"
    "\<forall>r<?A. \<forall>c<?M. g ! r ! c =
       (if c < ?P \<and> 1 \<le> r
        then batch_mean clk (clock st + 10 * (c * (?A - 1) + (r - 1))) else 0)"
    by blast
  have nn: "steady clk \<longrightarrow> (\<forall>r<?A. \<forall>c<?M. 0 \<le> g ! r ! c)"
    using g(3) batch_mean_nonneg [of clk] by simp
  show ?thesis
    unfolding Let_def g(1) option.case sum.case prod.case
    using st2 d g(2,3) nn by (simp only: fold_measured_calls simp_thms)
qed

text \<open>
  The instance of the specification: \<open>maxAssociativity = 3\<close>, \<open>minStride = 4\<close> bytes,
  \<open>maxStride = 8\<close> bytes. The calls are those for stride 1 and stride 2 with
  \<open>elems = 1, 2\<close>; the populated part of the grid is the two columns 0 and 1 of the rows 1
  and 2 (100 ns each with the clock \<open>ticking\<close>).
\<close>

theorem sweep_cells_witness:
  "(4::u32) \<le> 4 \<and> steady ticking \<and>
   (case capacityAndAssociativity rotating ticking (2 ^ 30) 3 8 4 (initial 1 (\<lambda>_. 0)) of
      Some (Inr (stridePow, times_v, jumps_v, st')) \<Rightarrow>
        stridePow = 2
        \<and> calls st' = [(1, 1), (1, 2), (2, 1), (2, 2)]
        \<and> map (\<lambda>r. map (\<lambda>c. times_v ! r ! c) [0..<8]) [0..<3] =
            [[0, 0, 0, 0, 0, 0, 0, 0],
             [100, 100, 0, 0, 0, 0, 0, 0],
             [100, 100, 0, 0, 0, 0, 0, 0]]
    | _ \<Rightarrow> False)"
proof -
  have h: "(4::u32) \<le> 4" by simp
  have s: "steady ticking" by (simp add: steady_def ticking_def)
  have P: "doublings (Suc 0) 8 = 2" by code_simp
  have c: "cells 1 3 2 = [(1, 1), (1, 2), (2, 1), (2, 2)]" by code_simp
  have m: "batch_mean ticking k = 100" for k
  proof -
    have "interval ticking k b = 100" for b by (simp add: interval_def ticking_def)
    then have "batch_mean ticking k = (\<Sum>b<unat BATCHES_COUNT. 100) sdiv uint BATCHES_COUNT"
      by (simp add: batch_mean_def)
    also have "\<dots> = 100" by (simp add: BATCHES_COUNT_def signed_divide_int_def)
    finally show ?thesis .
  qed
  have i: "calls (initial (1::nat) (\<lambda>_. 0)) = []" by (simp add: initial_def)
  have u: "unat (3::u32) = 3" "unat (8::u32) = 8" by simp_all
  have l: "[0..<8] = [0, 1, 2, 3, 4, 5, 6, 7]" "[0..<3] = [0, 1, 2]" by code_simp+
  note T = sweep_cells [OF h, where j = 0 and maxStride = 8 and maxAssoc = 3 and shuffle = rotating
      and clk = ticking and maxMemory = "2 ^ 30" and st = "initial 1 (\<lambda>_. 0)",
      unfolded Let_def u i append_Nil]
  then obtain p t jv st' where r:
    "capacityAndAssociativity rotating ticking (2 ^ 30) 3 8 4 (initial 1 (\<lambda>_. 0)) =
       Some (Inr (p, t, jv, st'))"
    by (auto split: option.splits sum.splits)
  from T have f: "p = of_nat 2" "calls st' = [(1, 1), (1, 2), (2, 1), (2, 2)]"
    and pt: "\<forall>r<3. \<forall>c<8. t ! r ! c = (if c < 2 \<and> 1 \<le> r then 100 else 0)"
    and nn: "\<forall>r<3. \<forall>c<8. 0 \<le> t ! r ! c"
    unfolding r option.case sum.case prod.case using s by (simp_all add: m P c)
  have "map (\<lambda>r. map (\<lambda>c. t ! r ! c) [0..<8]) [0..<3] =
            [[0, 0, 0, 0, 0, 0, 0, 0],
             [100, 100, 0, 0, 0, 0, 0, 0],
             [100, 100, 0, 0, 0, 0, 0, 0]]"
    unfolding l using pt by simp
  then show ?thesis
    unfolding r option.case sum.case prod.case using h s f by simp
qed

text \<open>
  C6 as stated does not restrict \<open>minStride\<close>. Below 4 bytes the stride is 0 elements
  and doubling leaves it 0: the loop condition of line 147 stays true, the cell
  (stride 0, elems 1) is measured again at every \<open>stridePow\<close>, and at
  \<open>stridePow = maxStride = 8\<close> the store of line 153 leaves the vector.
\<close>

theorem sweep_cells_counterexample:
  "capacityAndAssociativity rotating ticking (2 ^ 30) 2 8 2 (initial 1 (\<lambda>_. 0)) =
     Some (Inl VectorOutOfRange)"
  by (simp add: capacityAndAssociativity_def stride_loop.simps elems_loop.simps
      timeOfArrayRead_measured vector_set_def)

subsection \<open>C8: no jump is ever flagged\<close>

lemma elems_loop_jumps:
  "elems_loop shuffle clk maxAssoc stride stridePow elems g jv st = Inr (g', jv', st') \<Longrightarrow> jv' = jv"
proof (induction "unat maxAssoc - unat elems" arbitrary: elems g st)
  case 0
  then have "\<not> elems < maxAssoc" by (simp add: word_less_nat_alt)
  then have "elems_loop shuffle clk maxAssoc stride stridePow elems g jv st = Inr (g, jv, st)"
    by (subst elems_loop.simps) simp
  then show ?case using 0 by simp
next
  case (Suc d)
  have lt: "elems < maxAssoc" using Suc.hyps(2) by (simp add: word_less_nat_alt)
  have d: "d = unat maxAssoc - unat (elems + 1)"
    using Suc.hyps(2) by (simp add: unat_Suc_less [OF lt])
  show ?case
  proof (cases "vector_set g (unat elems) (unat stridePow) (batch_mean clk (clock st))")
    case (Inl e)
    then have "elems_loop shuffle clk maxAssoc stride stridePow elems g jv st = Inl e"
      using lt by (subst elems_loop.simps) (simp add: timeOfArrayRead_measured)
    then show ?thesis using Suc.prems by simp
  next
    case (Inr g1)
    then have "elems_loop shuffle clk maxAssoc stride stridePow elems g jv st =
        elems_loop shuffle clk maxAssoc stride stridePow (elems + 1) g1 jv
          (measured shuffle clk (stride, elems) st)"
      using lt by (subst elems_loop.simps) (simp add: timeOfArrayRead_measured)
    then show ?thesis using Suc.hyps(1) [OF d] Suc.prems by simp
  qed
qed

lemma stride_loop_jumps:
  assumes "stride_loop shuffle clk maxAssoc maxStride s sp g jv st = Some y"
  shows "case y of Inl e \<Rightarrow> True | Inr (p, g', jv', st') \<Rightarrow> jv' = jv"
proof (rule stride_loop.raw_induct
    [where P = "\<lambda>shuffle clk maxAssoc maxStride s sp g jv st y.
                  case y of Inl e \<Rightarrow> True | Inr (p, g', jv', st') \<Rightarrow> jv' = jv",
     OF _ assms])
  fix f and shuffle :: "'a shuffle" and clk maxAssoc maxStride s sp g jv and st :: "'a state" and y
  assume IH: "\<And>shuffle clk maxAssoc maxStride s sp g jv st y.
      f shuffle clk maxAssoc maxStride s sp g jv st = Some y \<Longrightarrow>
      (case y of Inl e \<Rightarrow> True | Inr (p, g', jv', st') \<Rightarrow> jv' = jv)"
    and eq: "(if unat s * 4 \<le> unat maxStride
        then case elems_loop shuffle clk maxAssoc s sp 1 g jv st of
               Inl e \<Rightarrow> Some (Inl e)
             | Inr (times_v', jumps_v', st') \<Rightarrow>
                 f shuffle clk maxAssoc maxStride (s * 2) (sp + 1) times_v' jumps_v' st'
        else Some (Inr (sp, g, jv, st))) = Some y"
  show "case y of Inl e \<Rightarrow> True | Inr (p, g', jv', st') \<Rightarrow> jv' = jv"
  proof (cases "unat s * 4 \<le> unat maxStride")
    case True
    show ?thesis
    proof (cases "elems_loop shuffle clk maxAssoc s sp 1 g jv st")
      case (Inl e)
      then have "y = Inl e" using eq True by simp
      then show ?thesis by simp
    next
      case (Inr r)
      obtain g1 jv1 st1 where r: "r = (g1, jv1, st1)" by (cases r) auto
      have "jv1 = jv" using elems_loop_jumps Inr r by blast
      moreover have "f shuffle clk maxAssoc maxStride (s * 2) (sp + 1) g1 jv1 st1 = Some y"
        using eq True Inr r by simp
      ultimately show ?thesis using IH by blast
    qed
  next
    case False
    then have "y = Inr (sp, g, jv, st)" using eq by simp
    then show ?thesis by simp
  qed
qed

lemma digit_not_bracket: "(n::nat) < 10 \<Longrightarrow> char_of (48 + n) \<noteq> CHR ''[''"
proof
  assume n: "n < 10" and "char_of (48 + n) = CHR ''[''"
  then have "(of_char (char_of (48 + n)) :: nat) = of_char CHR ''[''" by simp
  then show False using n by simp
qed

lemma string_of_nat_hd:
  "string_of_nat n \<noteq> [] \<and> hd (string_of_nat n) \<noteq> CHR ''[''"
proof (induction n rule: string_of_nat.induct)
  case (1 n)
  show ?case
  proof (cases "n < 10")
    case True
    then show ?thesis
      using digit_not_bracket [OF True]
      by (subst string_of_nat.simps, subst (2) string_of_nat.simps) simp
  next
    case False
    then show ?thesis
      using "1.IH" by (subst string_of_nat.simps, subst (2) string_of_nat.simps) simp
  qed
qed

lemma to_string_hd: "to_string i \<noteq> [] \<and> hd (to_string i) \<noteq> CHR ''[''"
  using string_of_nat_hd [of "nat i"] string_of_nat_hd [of "nat (- i)"]
  by (auto simp: to_string_def)

lemma to_string_0_1: "to_string 0 = ''0''" "to_string 1 = ''1''"
  by code_simp+

lemma batch_mean_ticking: "batch_mean ticking k = 100"
proof -
  have "interval ticking k b = 100" for b by (simp add: interval_def ticking_def)
  then have "batch_mean ticking k = (\<Sum>b<unat BATCHES_COUNT. 100) sdiv uint BATCHES_COUNT"
    by (simp add: batch_mean_def)
  also have "\<dots> = 100" by (simp add: BATCHES_COUNT_def signed_divide_int_def)
  finally show ?thesis .
qed

text \<open>
  C8. Whenever the sweep completes, the grid of jump flags that it hands to the printing
  stage is the grid of \<open>false\<close> it was created as: every cell, for all \<open>elems\<close> and all
  stride powers, is false, whatever the measured durations; and so the text of every
  cell of the table, composed in lines 188-190, does not begin with the marker \<open>[+]\<close>.
\<close>

theorem jumps_stay_false:
  assumes "capacityAndAssociativity shuffle clk maxMemory maxAssoc maxStride minStride st =
             Some (Inr (stridePow, times_v, jumps_v, st'))"
  shows "jumps_v = replicate (unat maxAssoc) (replicate (unat maxStride) False)
         \<and> (s < unat maxAssoc \<and> p < unat maxStride \<longrightarrow>
              \<not> jumps_v ! s ! p \<and> \<not> prefix ''[+]'' (timeWithJump times_v jumps_v s p))"
proof -
  have j: "jumps_v = replicate (unat maxAssoc) (replicate (unat maxStride) False)"
    using stride_loop_jumps [OF assms [unfolded capacityAndAssociativity_def Let_def]] by simp
  have "\<not> prefix ''[+]'' (to_string i)" for i
    using to_string_hd [of i] by (cases "to_string i") auto
  then show ?thesis using j by (auto simp: timeWithJump_def Let_def)
qed

text \<open>
  An instance: the sweep with \<open>maxAssoc = 3\<close>, \<open>maxStride = 8\<close>, \<open>minStride = 4\<close>
  completes; the cell for \<open>elems = 1\<close> at the first stride is printed as \<open>0\<close>
  (100 ns divided by the display factor).
\<close>

theorem jumps_stay_false_witness:
  "case capacityAndAssociativity rotating ticking (2 ^ 30) 3 8 4 (initial 1 (\<lambda>_. 0)) of
     Some (Inr (stridePow, times_v, jumps_v, st')) \<Rightarrow>
       jumps_v = replicate 3 (replicate 8 False) \<and> \<not> jumps_v ! 1 ! 0
       \<and> \<not> prefix ''[+]'' (timeWithJump times_v jumps_v 1 0)
       \<and> timeWithJump times_v jumps_v 1 0 = ''0''
   | _ \<Rightarrow> False"
proof -
  have h: "(4::u32) \<le> 4" by simp
  have u: "unat (3::u32) = 3" "unat (8::u32) = 8" by simp_all
  have P: "doublings (unat ((4::u32) div 4)) 8 = 2" by code_simp
  from sweep_result [OF h, of rotating ticking "2 ^ 30" 3 8 "initial 1 (\<lambda>_. 0)"]
  obtain p t jv st' where r:
    "capacityAndAssociativity rotating ticking (2 ^ 30) 3 8 4 (initial 1 (\<lambda>_. 0)) =
       Some (Inr (p, t, jv, st'))"
    and pt: "\<forall>r<3. \<forall>c<8. t ! r ! c = (if c < 2 \<and> 1 \<le> r then 100 else 0)"
    unfolding u P by (auto simp: batch_mean_ticking)
  from jumps_stay_false [OF r, of 1 0]
  have j: "jv = replicate 3 (replicate 8 False)" "\<not> jv ! 1 ! 0"
      "\<not> prefix ''[+]'' (timeWithJump t jv 1 0)"
    unfolding u by auto
  have "t ! 1 ! 0 = 100" using pt by simp
  then have "timeWithJump t jv 1 0 = ''0''"
    using j(2) by (simp add: timeWithJump_def timeFactor_def signed_divide_int_def to_string_0_1)
  then show ?thesis unfolding r option.case sum.case prod.case using j by simp
qed

subsection \<open>C10: every access of the compiled program is inside the buffer\<close>

lemma sweep_accesses:
  assumes "permutes shuffle" and "4 \<le> minStride"
    and "(unat (maxAssoc::u32) - 2) * (unat (maxStride::u32) div 4) < L" and "L \<le> 2 ^ 32"
  shows "\<exists>xs. accesses (fold (measured shuffle clk)
                  (cells (minStride div 4) (unat maxAssoc)
                     (doublings (unat (minStride div 4)) (unat maxStride))) st) =
              accesses st @ xs
            \<and> (\<forall>x\<in>set xs. unat (addr x) < L)"
proof -
  have A: "unat maxAssoc \<le> 2 ^ 32" using unat_u32_bound [of maxAssoc] by simp
  show ?thesis
    by (rule fold_measured_accesses [OF assms(1)])
       (use cells_in_bounds [OF sweep_strides(1) [OF assms(2)] unat_u32_bound A order_refl
          assms(3,4)] in blast)
qed

text \<open>
  C10. With the constants compiled into \<open>main\<close> (\<open>maxMemory = 2^30\<close>, so
  \<open>arrayLen = 2^28\<close>; \<open>minStride = 16\<close>; \<open>maxStride = 2^25\<close>; the sweep invoked with
  \<open>maxAssoc + 1 = 33\<close>) the program passes the startup check, completes the sweep and
  returns 0, and every index it has written into the buffer or read from it, in any
  pattern generation, warm-up or timed chase, is below \<open>arrayLen\<close>: the largest
  footprint, 32 elements at a stride of \<open>2^23\<close> elements, ends at index
  \<open>31 * 2^23 < 2^28\<close>.
\<close>

theorem main_in_bounds:
  assumes "permutes shuffle"
  shows "case main shuffle clk (initial g a) of
           Some (Inr (status, st')) \<Rightarrow>
             status = 0 \<and> arrayLen st' = 2 ^ 28
             \<and> list_all (\<lambda>x. addr x < arrayLen st') (accesses st')
         | _ \<Rightarrow> False"
proof -
  define st2 where "st2 = (initial g a)\<lparr>allocated := True, arrayLen := 2 ^ 30 div 4\<rparr>"
  let ?cs = "cells ((16::u32) div 4) (unat (32 + 1 :: u32))
               (doublings (unat ((16::u32) div 4)) (unat (2 ^ 25 :: u32)))"
  have h: "(4::u32) \<le> 16" by simp
  have b: "(unat (32 + 1 :: u32) - 2) * (unat (2 ^ 25 :: u32) div 4) < 2 ^ 28" by simp
  from sweep_result [OF h, of shuffle clk "2 ^ 30" "32 + 1" "2 ^ 25" st2]
  obtain g' where r:
    "capacityAndAssociativity shuffle clk (2 ^ 30) (32 + 1) (2 ^ 25) 16 st2 =
       Some (Inr (of_nat (doublings (unat ((16::u32) div 4)) (unat (2 ^ 25 :: u32))), g',
                  replicate (unat (32 + 1 :: u32)) (replicate (unat (2 ^ 25 :: u32)) False),
                  fold (measured shuffle clk) ?cs st2))"
    by blast
  from sweep_accesses [OF assms h b, of clk st2]
  obtain xs where xs: "accesses (fold (measured shuffle clk) ?cs st2) = accesses st2 @ xs"
      "\<forall>x\<in>set xs. unat (addr x) < 2 ^ 28"
    by auto
  have a0: "accesses st2 = []" by (simp add: st2_def initial_def)
  have len: "arrayLen (fold (measured shuffle clk) ?cs st2) = 2 ^ 28"
    by (simp add: fold_measured_fields st2_def)
  have "\<forall>x\<in>set xs. addr x < (2 ^ 28 :: u32)"
    using xs(2) by (simp add: word_less_nat_alt)
  then have all: "list_all (\<lambda>x. addr x < (2 ^ 28 :: u32)) (accesses (fold (measured shuffle clk) ?cs st2))"
    unfolding xs(1) a0 append_Nil by (simp add: list_all_iff)
  have ra: "rassert ((32::u32) * 2 ^ 25 \<le> 2 ^ 30) 1 (initial g a) = Inr (initial g a)"
    by (simp add: rassert_def)
  show ?thesis
    unfolding main_def main_with_def ra sum.case Let_def st2_def [symmetric] r option.case prod.case
    using len all by simp
qed

text \<open>An instance: the rotating shuffle with its engine at 0, a buffer of zeros.\<close>

theorem main_in_bounds_witness:
  "permutes rotating \<and>
   (case main rotating ticking (initial 0 (\<lambda>_. 0)) of
      Some (Inr (status, st')) \<Rightarrow>
        status = 0 \<and> arrayLen st' = 2 ^ 28
        \<and> list_all (\<lambda>x. addr x < arrayLen st') (accesses st')
    | _ \<Rightarrow> False)"
  using main_in_bounds [OF permutes_rotating, of ticking 0 "\<lambda>_. 0"] permutes_rotating
  by blast

subsection \<open>C5: the startup check\<close>

lemma main_with_checked:
  assumes "maxAssoc * maxStride \<le> maxMemory"
  shows "case main_with shuffle clk maxMemory maxAssoc maxStride minStride st of
           Some (Inr (status, st')) \<Rightarrow> status = 0
         | _ \<Rightarrow> True"
proof (cases "capacityAndAssociativity shuffle clk maxMemory (maxAssoc + 1) maxStride minStride
                (st\<lparr>allocated := True, arrayLen := maxMemory div 4\<rparr>)")
  case None
  then show ?thesis using assms by (simp add: main_with_def rassert_def)
next
  case (Some y)
  then show ?thesis using assms
    by (auto simp: main_with_def rassert_def split: sum.splits)
qed

lemma main_with_failed:
  assumes "\<not> maxAssoc * maxStride \<le> maxMemory"
  shows "main_with shuffle clk maxMemory maxAssoc maxStride minStride st =
           Some (Inr (1, st\<lparr>cerr := cerr st @ ''Assertion failed: 1'' @ [CHR 0x0A]\<rparr>))"
  using assms by (simp add: main_with_def rassert_def to_string_0_1)

lemma product_fits:
  assumes "unat (a::u32) * unat (b::u32) < 2 ^ 32"
  shows "a * b \<le> m \<longleftrightarrow> unat a * unat b \<le> unat m"
proof -
  have "unat a * unat b < 2 ^ LENGTH(32)" using assms by simp
  then have "unat (a * b) = unat a * unat b" by (simp only: unat_mult_lem [THEN iffD1])
  then show ?thesis by (simp add: word_le_nat_alt)
qed

text \<open>
  C5, amended. Line 203 multiplies in \<^verbatim>\<open>uint32_t\<close>. When the product of the numbers
  \<open>maxAssoc\<close> and \<open>maxStride\<close> is below \<open>2^32\<close>, so that line 203 computes it exactly
  (as in the example \<open>33 * 2^25\<close>): if the product exceeds \<open>maxMemory\<close>, the process
  ends with exit status 1 in the state it started in but for the line
  \<open>Assertion failed: 1\<close> appended to the error stream, so before the buffer is allocated
  or anything else is done; if it does not, \<open>rassert\<close> returns without any effect and
  whatever status \<open>main\<close> then returns is 0.
\<close>

theorem startup_check:
  assumes "unat maxAssoc * unat maxStride < 2 ^ 32"
  shows "(unat maxMemory < unat maxAssoc * unat maxStride \<longrightarrow>
            main_with shuffle clk maxMemory maxAssoc maxStride minStride st =
              Some (Inr (1, st\<lparr>cerr := cerr st @ ''Assertion failed: 1'' @ [CHR 0x0A]\<rparr>)))
         \<and> (unat maxAssoc * unat maxStride \<le> unat maxMemory \<longrightarrow>
              rassert (maxAssoc * maxStride \<le> maxMemory) 1 st = Inr st
              \<and> (case main_with shuffle clk maxMemory maxAssoc maxStride minStride st of
                   Some (Inr (status, st')) \<Rightarrow> status = 0
                 | _ \<Rightarrow> True))"
proof (intro conjI impI)
  assume "unat maxMemory < unat maxAssoc * unat maxStride"
  then have "\<not> maxAssoc * maxStride \<le> maxMemory"
    by (simp add: product_fits [OF assms])
  then show "main_with shuffle clk maxMemory maxAssoc maxStride minStride st =
        Some (Inr (1, st\<lparr>cerr := cerr st @ ''Assertion failed: 1'' @ [CHR 0x0A]\<rparr>))"
    by (rule main_with_failed)
next
  assume "unat maxAssoc * unat maxStride \<le> unat maxMemory"
  then have ok: "maxAssoc * maxStride \<le> maxMemory"
    by (simp add: product_fits [OF assms])
  then show "rassert (maxAssoc * maxStride \<le> maxMemory) 1 st = Inr st"
    by (simp add: rassert_def)
  show "case main_with shuffle clk maxMemory maxAssoc maxStride minStride st of
             Some (Inr (status, st')) \<Rightarrow> status = 0
           | _ \<Rightarrow> True"
    using ok by (rule main_with_checked)
qed

text \<open>
  The instance of the specification, \<open>maxAssociativity = 33\<close>, \<open>maxStride = 2^25\<close>,
  \<open>maxMemory = 2^30\<close>, which exits with status 1 and nothing allocated; and the
  constants of the source, \<open>maxAssoc = 32\<close>, which pass the check.
\<close>

theorem startup_check_witness:
  "unat (33::u32) * unat (2 ^ 25 :: u32) < 2 ^ 32
   \<and> unat (2 ^ 30 :: u32) < unat (33::u32) * unat (2 ^ 25 :: u32)
   \<and> main_with rotating ticking (2 ^ 30) 33 (2 ^ 25) 16 (initial 0 (\<lambda>_. 0)) =
       Some (Inr (1, (initial 0 (\<lambda>_. 0))\<lparr>cerr := ''Assertion failed: 1'' @ [CHR 0x0A]\<rparr>))
   \<and> \<not> allocated ((initial (0::nat) (\<lambda>_. 0))\<lparr>cerr := ''Assertion failed: 1'' @ [CHR 0x0A]\<rparr>)
   \<and> unat (32::u32) * unat (2 ^ 25 :: u32) < 2 ^ 32
   \<and> unat (32::u32) * unat (2 ^ 25 :: u32) \<le> unat (2 ^ 30 :: u32)
   \<and> rassert ((32::u32) * 2 ^ 25 \<le> 2 ^ 30) 1 (initial (0::nat) (\<lambda>_. 0)) = Inr (initial 0 (\<lambda>_. 0))
   \<and> (case main_with rotating ticking (2 ^ 30) 32 (2 ^ 25) 16 (initial 0 (\<lambda>_. 0)) of
        Some (Inr (status, st')) \<Rightarrow> status = 0
      | _ \<Rightarrow> True)"
proof -
  have f: "unat (33::u32) * unat (2 ^ 25 :: u32) < 2 ^ 32" by simp
  have v: "unat (2 ^ 30 :: u32) < unat (33::u32) * unat (2 ^ 25 :: u32)" by simp
  have f': "unat (32::u32) * unat (2 ^ 25 :: u32) < 2 ^ 32" by simp
  have k: "unat (32::u32) * unat (2 ^ 25 :: u32) \<le> unat (2 ^ 30 :: u32)" by simp
  have c: "cerr (initial (0::nat) (\<lambda>_. 0)) = []" "\<not> allocated (initial (0::nat) (\<lambda>_. 0))"
    by (simp_all add: initial_def)
  note T1 = startup_check [OF f, where maxMemory = "2 ^ 30"
      and shuffle = rotating and clk = ticking and minStride = 16 and st = "initial 0 (\<lambda>_. 0)"]
  note T2 = startup_check [OF f', where maxMemory = "2 ^ 30"
      and shuffle = rotating and clk = ticking and minStride = 16 and st = "initial 0 (\<lambda>_. 0)"]
  from T1 v have a: "main_with rotating ticking (2 ^ 30) 33 (2 ^ 25) 16 (initial 0 (\<lambda>_. 0)) =
       Some (Inr (1, (initial 0 (\<lambda>_. 0))\<lparr>cerr := ''Assertion failed: 1'' @ [CHR 0x0A]\<rparr>))"
    unfolding c append_Nil by blast
  from T2 k have b: "rassert ((32::u32) * 2 ^ 25 \<le> 2 ^ 30) 1 (initial (0::nat) (\<lambda>_. 0)) =
        Inr (initial 0 (\<lambda>_. 0))"
      "case main_with rotating ticking (2 ^ 30) 32 (2 ^ 25) 16 (initial 0 (\<lambda>_. 0)) of
        Some (Inr (status, st')) \<Rightarrow> status = 0
      | _ \<Rightarrow> True"
    by blast+
  show ?thesis by (intro conjI f v a f' k b) (simp add: c(2))
qed

text \<open>
  C5 as stated, for the product of the numbers, fails where the product does not fit in
  32 bits: with \<open>maxAssociativity = 128\<close>, \<open>maxStride = 2^25\<close> and
  \<open>maxMemory = 2^30\<close> the precondition is violated (\<open>2^32 > 2^30\<close>), yet line 203
  computes the product 0, \<open>rassert\<close> returns and the process does not exit with status 1.
\<close>

theorem startup_check_counterexample:
  "unat (2 ^ 30 :: u32) < unat (128::u32) * unat (2 ^ 25 :: u32)
   \<and> rassert ((128::u32) * 2 ^ 25 \<le> 2 ^ 30) 1 (initial (0::nat) (\<lambda>_. 0)) = Inr (initial 0 (\<lambda>_. 0))
   \<and> main_with rotating ticking (2 ^ 30) 128 (2 ^ 25) 16 (initial 0 (\<lambda>_. 0)) \<noteq>
       Some (Inr (1, (initial 0 (\<lambda>_. 0))\<lparr>cerr := ''Assertion failed: 1'' @ [CHR 0x0A]\<rparr>))"
proof -
  have w: "(128::u32) * 2 ^ 25 \<le> 2 ^ 30" by simp
  have "unat (2 ^ 30 :: u32) < unat (128::u32) * unat (2 ^ 25 :: u32)" by simp
  moreover have "rassert ((128::u32) * 2 ^ 25 \<le> 2 ^ 30) 1 (initial (0::nat) (\<lambda>_. 0)) =
      Inr (initial 0 (\<lambda>_. 0))"
    using w by (simp add: rassert_def)
  moreover have "main_with rotating ticking (2 ^ 30) 128 (2 ^ 25) 16 (initial 0 (\<lambda>_. 0)) \<noteq>
       Some (Inr (1, (initial 0 (\<lambda>_. 0))\<lparr>cerr := ''Assertion failed: 1'' @ [CHR 0x0A]\<rparr>))"
    using main_with_checked [OF w, of rotating ticking 16 "initial 0 (\<lambda>_. 0)"] by auto
  ultimately show ?thesis by blast
qed

subsection \<open>C9: what governs the shuffled pattern\<close>

lemma writes_to_indep:
  "p \<in> set (map fst ws) \<Longrightarrow> writes_to ws a p = writes_to ws b p"
proof (induction ws arbitrary: a b)
  case Nil
  then show ?case by simp
next
  case (Cons w ws)
  show ?case
  proof (cases "p \<in> set (map fst ws)")
    case True
    then have "writes_to ws (a(fst w := snd w)) p = writes_to ws (b(fst w := snd w)) p"
      by (rule Cons.IH)
    then show ?thesis by (simp add: writes_to_def)
  next
    case False
    then have "p = fst w" using Cons.prems by simp
    moreover have "writes_to ws (a(fst w := snd w)) p = (a(fst w := snd w)) p"
      "writes_to ws (b(fst w := snd w)) p = (b(fst w := snd w)) p"
      using False by (simp_all add: writes_to_notin)
    ultimately show ?thesis by (simp add: writes_to_def)
  qed
qed

lemma written_fill:
  "written (fillShuffledIndexes shuffle stride elems seed st) =
     written st @ map (\<lambda>k. fst (link stride (unat elems)
                        (fst (shuffle (gen st) (iota (unat elems)))) k)) [0..<unat elems]"
  by (simp add: written_def fillShuffledIndexes_eq apply_writes_eq filter_map o_def)

lemma same_patterns_fill:
  assumes "same_patterns st st'"
  shows "same_patterns (fillShuffledIndexes shuffle stride elems seed st)
           (fillShuffledIndexes shuffle stride elems seed' st')"
proof -
  let ?ws = "map (link stride (unat elems) (fst (shuffle (gen st) (iota (unat elems)))))
               [0..<unat elems]"
  have g: "gen st = gen st'" and d: "draws st = draws st'" and c: "calls st = calls st'"
    and w: "written st = written st'" and a: "\<forall>p\<in>set (written st). array st p = array st' p"
    using assms by (simp_all add: same_patterns_def)
  have arr: "array (fillShuffledIndexes shuffle stride elems seed st) = writes_to ?ws (array st)"
       "array (fillShuffledIndexes shuffle stride elems seed' st') = writes_to ?ws (array st')"
    by (simp_all add: fillShuffledIndexes_eq apply_writes_eq g)
  have wr: "written (fillShuffledIndexes shuffle stride elems seed st) = written st @ map fst ?ws"
    by (simp add: written_fill o_def)
  have "writes_to ?ws (array st) p = writes_to ?ws (array st') p"
    if "p \<in> set (written st @ map fst ?ws)" for p
  proof (cases "p \<in> set (map fst ?ws)")
    case True
    then show ?thesis by (rule writes_to_indep)
  next
    case False
    then have "p \<in> set (written st)" using that by simp
    then have "array st p = array st' p" using a by blast
    then show ?thesis using False by (simp add: writes_to_notin)
  qed
  then have "\<forall>p\<in>set (written (fillShuffledIndexes shuffle stride elems seed st)).
      array (fillShuffledIndexes shuffle stride elems seed st) p =
      array (fillShuffledIndexes shuffle stride elems seed' st') p"
    unfolding wr arr by blast
  then show ?thesis
    unfolding same_patterns_def
    by (simp add: fillShuffledIndexes_fields written_fill g d c w)
qed

lemma written_update:
  "written (st\<lparr>calls := c\<rparr>) = written st"
  "written (st\<lparr>allocated := b\<rparr>) = written st"
  "written (st\<lparr>arrayLen := l\<rparr>) = written st"
  by (simp_all add: written_def)

lemma one_batch_fields:
  "gen (one_batch shuffle stride elems n w st) = gen (fillShuffledIndexes shuffle stride elems 42 st)"
  "draws (one_batch shuffle stride elems n w st) = draws (fillShuffledIndexes shuffle stride elems 42 st)"
  "calls (one_batch shuffle stride elems n w st) = calls (fillShuffledIndexes shuffle stride elems 42 st)"
  "array (one_batch shuffle stride elems n w st) = array (fillShuffledIndexes shuffle stride elems 42 st)"
  "written (one_batch shuffle stride elems n w st) =
     written (fillShuffledIndexes shuffle stride elems 42 st)"
  by (simp_all add: one_batch_def Let_def written_def filter_chase_reads)

lemma same_patterns_one_batch:
  assumes "same_patterns st st'"
  shows "same_patterns (one_batch shuffle stride elems n w st)
           (one_batch shuffle stride elems n w st')"
  using same_patterns_fill [OF assms, of shuffle stride elems 42 42]
  by (simp add: same_patterns_def one_batch_fields)

lemma same_patterns_batches:
  "same_patterns st st' \<Longrightarrow>
   same_patterns ((one_batch shuffle stride elems n w ^^ k) st)
     ((one_batch shuffle stride elems n w ^^ k) st')"
  by (induction k) (simp_all add: same_patterns_one_batch)

lemma measured_batches:
  "measured shuffle clk cell st =
     (one_batch shuffle (fst cell) (snd cell) ARRAY_READS_COUNT WARNUP_READS_COUNT
        ^^ unat BATCHES_COUNT) (st\<lparr>calls := calls st @ [cell]\<rparr>)"
proof -
  have b: "BATCHES_COUNT \<noteq> 0" by (simp add: BATCHES_COUNT_def)
  show ?thesis
    using timeOfArrayRead_loop_batches [of shuffle clk "fst cell" "snd cell" ARRAY_READS_COUNT
        WARNUP_READS_COUNT BATCHES_COUNT 0 0 "st\<lparr>calls := calls st @ [cell]\<rparr>"] b
    by (auto simp: measured_def timeOfArrayRead_def Let_def split: prod.splits)
qed

lemma same_patterns_measured:
  assumes "same_patterns st st'"
  shows "same_patterns (measured shuffle clk cell st) (measured shuffle clk' cell st')"
proof -
  have "same_patterns (st\<lparr>calls := calls st @ [cell]\<rparr>) (st'\<lparr>calls := calls st' @ [cell]\<rparr>)"
    using assms by (simp add: same_patterns_def written_update)
  then show ?thesis unfolding measured_batches by (rule same_patterns_batches)
qed

lemma same_patterns_fold:
  "same_patterns st st' \<Longrightarrow>
   same_patterns (fold (measured shuffle clk) cs st) (fold (measured shuffle clk') cs st')"
  by (induction cs arbitrary: st st') (simp_all add: same_patterns_measured)

lemma main_run:
  "main shuffle clk st =
     Some (Inr (0, (fold (measured shuffle clk)
                      (cells ((16::u32) div 4) (unat (32 + 1 :: u32))
                         (doublings (unat ((16::u32) div 4)) (unat (2 ^ 25 :: u32))))
                      (st\<lparr>allocated := True, arrayLen := 2 ^ 30 div 4\<rparr>))\<lparr>allocated := False\<rparr>))"
proof -
  define st2 where "st2 = st\<lparr>allocated := True, arrayLen := 2 ^ 30 div 4\<rparr>"
  have h: "(4::u32) \<le> 16" by simp
  from sweep_result [OF h, of shuffle clk "2 ^ 30" "32 + 1" "2 ^ 25" st2]
  obtain g' where r:
    "capacityAndAssociativity shuffle clk (2 ^ 30) (32 + 1) (2 ^ 25) 16 st2 =
       Some (Inr (of_nat (doublings (unat ((16::u32) div 4)) (unat (2 ^ 25 :: u32))), g',
                  replicate (unat (32 + 1 :: u32)) (replicate (unat (2 ^ 25 :: u32)) False),
                  fold (measured shuffle clk)
                    (cells ((16::u32) div 4) (unat (32 + 1 :: u32))
                       (doublings (unat ((16::u32) div 4)) (unat (2 ^ 25 :: u32)))) st2))"
    by blast
  have ra: "rassert ((32::u32) * 2 ^ 25 \<le> 2 ^ 30) 1 st = Inr st"
    by (simp add: rassert_def)
  show ?thesis
    unfolding main_def main_with_def ra sum.case Let_def st2_def [symmetric] r option.case prod.case
    by simp
qed

lemma same_patterns_startup: "same_patterns (startup mt a) (startup mt a')"
  by (simp add: same_patterns_def startup_def initial_def written_def)

lemma same_patterns_main:
  assumes "same_patterns st st'"
  shows "case main shuffle clk st of
           Some (Inr (status, s)) \<Rightarrow>
             (case main shuffle clk' st' of
                Some (Inr (status', s')) \<Rightarrow> same_patterns s s'
              | _ \<Rightarrow> False)
         | _ \<Rightarrow> False"
proof -
  have "same_patterns (st\<lparr>allocated := True, arrayLen := 2 ^ 30 div 4\<rparr>)
          (st'\<lparr>allocated := True, arrayLen := 2 ^ 30 div 4\<rparr>)"
    using assms by (simp add: same_patterns_def written_update)
  then have "same_patterns
      (fold (measured shuffle clk)
         (cells ((16::u32) div 4) (unat (32 + 1 :: u32))
            (doublings (unat ((16::u32) div 4)) (unat (2 ^ 25 :: u32))))
         (st\<lparr>allocated := True, arrayLen := 2 ^ 30 div 4\<rparr>))
      (fold (measured shuffle clk')
         (cells ((16::u32) div 4) (unat (32 + 1 :: u32))
            (doublings (unat ((16::u32) div 4)) (unat (2 ^ 25 :: u32))))
         (st'\<lparr>allocated := True, arrayLen := 2 ^ 30 div 4\<rparr>))"
    by (rule same_patterns_fold)
  then show ?thesis
    unfolding main_run by (simp add: same_patterns_def written_update)
qed

text \<open>
  C9, amended. The parameter \<open>seed\<close> of \<open>fillShuffledIndexes\<close>, whose default is 42, has
  no influence on the result: the pattern is governed by the state of the global engine
  \<open>gen\<close> alone. Two calls that find the engine in the same state write the same indices
  in the same order, draw the same permutation, leave the engine in the same state and
  leave the same value in every cell they wrote, whatever the seeds and the previous
  contents of the buffer. And the patterns of a run are reproducible: line 19 constructs
  the engine once, from the fixed seed 239, and any two runs of \<open>main\<close> from that start,
  whatever the clock reads and whatever the allocated memory holds, both return and have
  generated the same sequence of patterns: the same permutations for the same calls in the
  same order, the same cells written in the same order with the same values left in them,
  and the same final state of the engine.
\<close>

theorem pattern_governed_by_engine:
  "fillShuffledIndexes shuffle stride elems seed st =
     fillShuffledIndexes shuffle stride elems seed' st
   \<and> (gen st = gen st' \<longrightarrow>
        new_accesses st (fillShuffledIndexes shuffle stride elems seed st) =
          new_accesses st' (fillShuffledIndexes shuffle stride elems seed' st')
        \<and> gen (fillShuffledIndexes shuffle stride elems seed st) =
            gen (fillShuffledIndexes shuffle stride elems seed' st')
        \<and> last (draws (fillShuffledIndexes shuffle stride elems seed st)) =
            last (draws (fillShuffledIndexes shuffle stride elems seed' st'))
        \<and> (p \<in> addr ` set (new_accesses st (fillShuffledIndexes shuffle stride elems seed st)) \<longrightarrow>
             array (fillShuffledIndexes shuffle stride elems seed st) p =
               array (fillShuffledIndexes shuffle stride elems seed' st') p))
   \<and> (case main shuffle clk (startup mt a) of
         Some (Inr (status, s)) \<Rightarrow>
           (case main shuffle clk' (startup mt a') of
              Some (Inr (status', s')) \<Rightarrow> same_patterns s s'
            | _ \<Rightarrow> False)
       | _ \<Rightarrow> False)"
proof (intro conjI impI)
  show "fillShuffledIndexes shuffle stride elems seed st =
        fillShuffledIndexes shuffle stride elems seed' st"
    by (simp add: fillShuffledIndexes_def)
next
  show "case main shuffle clk (startup mt a) of
         Some (Inr (status, s)) \<Rightarrow>
           (case main shuffle clk' (startup mt a') of
              Some (Inr (status', s')) \<Rightarrow> same_patterns s s'
            | _ \<Rightarrow> False)
       | _ \<Rightarrow> False"
    by (rule same_patterns_main [OF same_patterns_startup])
next
  assume g: "gen st = gen st'"
  let ?ws = "map (link stride (unat elems) (fst (shuffle (gen st) (iota (unat elems)))))
               [0..<unat elems]"
  have n: "new_accesses st (fillShuffledIndexes shuffle stride elems seed st) =
           map (\<lambda>w. Write (fst w)) ?ws"
      "new_accesses st' (fillShuffledIndexes shuffle stride elems seed' st') =
           map (\<lambda>w. Write (fst w)) ?ws"
    by (simp_all add: new_accesses_def fillShuffledIndexes_eq apply_writes_eq g)
  show "new_accesses st (fillShuffledIndexes shuffle stride elems seed st) =
        new_accesses st' (fillShuffledIndexes shuffle stride elems seed' st')"
    by (simp only: n)
  show "gen (fillShuffledIndexes shuffle stride elems seed st) =
        gen (fillShuffledIndexes shuffle stride elems seed' st')"
    by (simp add: fillShuffledIndexes_fields g)
  show "last (draws (fillShuffledIndexes shuffle stride elems seed st)) =
        last (draws (fillShuffledIndexes shuffle stride elems seed' st'))"
    by (simp add: fillShuffledIndexes_fields g)
  assume "p \<in> addr ` set (new_accesses st (fillShuffledIndexes shuffle stride elems seed st))"
  then have "p \<in> set (map fst ?ws)" unfolding n by (auto simp: image_iff)
  then have "writes_to ?ws (array st) p = writes_to ?ws (array st') p"
    by (rule writes_to_indep)
  then show "array (fillShuffledIndexes shuffle stride elems seed st) p =
             array (fillShuffledIndexes shuffle stride elems seed' st') p"
    by (simp add: fillShuffledIndexes_eq apply_writes_eq g)
qed

text \<open>
  An instance: seeds 42 and 7, buffers of zeros and of nines, the engine at 1 in both; and
  two runs of \<open>main\<close> with different clocks and different memory contents, the engine
  constructed from 239.
\<close>

theorem pattern_governed_by_engine_witness:
  "fillShuffledIndexes rotating 4 3 42 (initial 1 (\<lambda>_. 0)) =
     fillShuffledIndexes rotating 4 3 7 (initial 1 (\<lambda>_. 0))
   \<and> gen (initial (1::nat) (\<lambda>_. 0)) = gen (initial (1::nat) (\<lambda>_. 9))
   \<and> new_accesses (initial 1 (\<lambda>_. 0)) (fillShuffledIndexes rotating 4 3 42 (initial 1 (\<lambda>_. 0))) =
       new_accesses (initial 1 (\<lambda>_. 9)) (fillShuffledIndexes rotating 4 3 7 (initial 1 (\<lambda>_. 9)))
   \<and> 8 \<in> addr ` set (new_accesses (initial 1 (\<lambda>_. 0))
                        (fillShuffledIndexes rotating 4 3 42 (initial 1 (\<lambda>_. 0))))
   \<and> array (fillShuffledIndexes rotating 4 3 42 (initial 1 (\<lambda>_. 0))) 8 =
       array (fillShuffledIndexes rotating 4 3 7 (initial 1 (\<lambda>_. 9))) 8
   \<and> gen (startup unat (\<lambda>_. 0)) = 239
   \<and> (case main rotating ticking (startup unat (\<lambda>_. 0)) of
         Some (Inr (status, s)) \<Rightarrow>
           (case main rotating (\<lambda>k. 7 * int k) (startup unat (\<lambda>_. 9)) of
              Some (Inr (status', s')) \<Rightarrow> same_patterns s s'
            | _ \<Rightarrow> False)
       | _ \<Rightarrow> False)"
proof -
  have g: "gen (initial (1::nat) (\<lambda>_. 0)) = gen (initial (1::nat) (\<lambda>_. 9))"
    by (simp add: initial_def)
  have m: "8 \<in> addr ` set (new_accesses (initial 1 (\<lambda>_. 0))
                        (fillShuffledIndexes rotating 4 3 42 (initial 1 (\<lambda>_. 0))))"
    by code_simp
  have s: "gen (startup unat (\<lambda>_. 0)) = 239" by (simp add: startup_def initial_def)
  note T = pattern_governed_by_engine [where shuffle = rotating and stride = 4 and elems = 3 and seed = 42
      and st = "initial 1 (\<lambda>_. 0)" and seed' = 7 and st' = "initial 1 (\<lambda>_. 9)" and p = 8
      and clk = ticking and mt = unat and a = "\<lambda>_. 0" and clk' = "\<lambda>k. 7 * int k"
      and a' = "\<lambda>_. 9"]
  note one = T [THEN conjunct1]
  note mid = T [THEN conjunct2, THEN conjunct1, THEN mp, OF g]
  note two = mid [THEN conjunct1]
  note three = mid [THEN conjunct2, THEN conjunct2, THEN conjunct2, THEN mp, OF m]
  from T have run: "case main rotating ticking (startup unat (\<lambda>_. 0)) of
         Some (Inr (status, s)) \<Rightarrow>
           (case main rotating (\<lambda>k. 7 * int k) (startup unat (\<lambda>_. 9)) of
              Some (Inr (status', s')) \<Rightarrow> same_patterns s s'
            | _ \<Rightarrow> False)
       | _ \<Rightarrow> False"
    by (rule conjunct2 [THEN conjunct2])
  show ?thesis by (intro conjI one g two m three s run)
qed

text \<open>
  C9 as stated has the pattern content governed by the seed 42. The seed does not govern
  it: with 7 for 42 the generator produces the same state; and with the seed left at 42,
  another engine state gives another permutation.
\<close>

theorem pattern_governed_by_engine_counterexample:
  "fillShuffledIndexes rotating 4 3 42 (initial 1 (\<lambda>_. 0)) =
     fillShuffledIndexes rotating 4 3 7 (initial 1 (\<lambda>_. 0))
   \<and> draws (fillShuffledIndexes rotating 4 3 42 (initial 1 (\<lambda>_. 0))) = [[1, 2, 0]]
   \<and> draws (fillShuffledIndexes rotating 4 3 42 (initial 2 (\<lambda>_. 0))) = [[2, 0, 1]]"
proof -
  have "fillShuffledIndexes rotating 4 3 42 (initial 1 (\<lambda>_. 0)) =
        fillShuffledIndexes rotating 4 3 7 (initial 1 (\<lambda>_. 0))"
    by (simp add: fillShuffledIndexes_def)
  moreover have "draws (fillShuffledIndexes rotating 4 3 42 (initial 1 (\<lambda>_. 0))) = [[1, 2, 0]]"
    by code_simp
  moreover have "draws (fillShuffledIndexes rotating 4 3 42 (initial 2 (\<lambda>_. 0))) = [[2, 0, 1]]"
    by code_simp
  ultimately show ?thesis by blast
qed

end
